theory Spec2Isabelle
  imports Complex_Main
begin

section \<open>The Gemini key manager: data model\<close>

text \<open>
  The development embeds \<^verbatim>\<open>backend/src/agent/key_manager.py\<close>.

  Python strings are lists of characters; a \<^typ>\<open>char\<close> stands for one code point
  (the code points below 256 are the ones this type holds). Python integers are
  unbounded: the counters are \<^typ>\<open>int\<close>. The readings of \<^verbatim>\<open>time.time()\<close> are
  only stored, never computed with, and a timestamp is a real number.
  List positions are natural numbers: every index the manager uses comes out of
  \<^verbatim>\<open>(self._next_index + offset) % total\<close>, which is never negative.

  The manager's lock makes each bookkeeping method one atomic step; the model has one
  function per method, from the state before to the state after.
\<close>

type_synonym timestamp = real

text \<open>The dataclass \<^verbatim>\<open>GeminiKeyRecord\<close>, field by field.\<close>

record GeminiKeyRecord =
  raw_key :: string
  masked_key :: string
  status :: string
  disabled :: bool
  last_error :: "string option"
  last_used_at :: "timestamp option"
  last_success_at :: "timestamp option"
  last_failure_at :: "timestamp option"
  success_count :: int
  failure_count :: int
  last_used :: bool

text \<open>
  An exception object raised by the caller's function: its class name, whether the
  class derives from \<^verbatim>\<open>Exception\<close> (\<^verbatim>\<open>KeyboardInterrupt\<close>, \<^verbatim>\<open>SystemExit\<close> and
  \<^verbatim>\<open>GeneratorExit\<close> do not), and what \<^verbatim>\<open>str(exc)\<close> gives: \<open>None\<close> when
  \<^verbatim>\<open>str(exc)\<close> itself raises, as it does when the class overrides \<^verbatim>\<open>__str__\<close>
  with a method that raises or that returns no string.
\<close>

datatype py_exception =
  PyException (exc_class: string) (is_Exception: bool) (exc_str: "string option")

text \<open>
  What leaves a method of the manager as an exception: \<^verbatim>\<open>ValueError\<close> with its
  message, \<^verbatim>\<open>GeminiKeyExhaustedError\<close> with its message and its \<^verbatim>\<open>errors\<close>
  attribute, the \<^verbatim>\<open>IndexError\<close> of a list subscript out of range, an exception of
  the caller's function that \<^verbatim>\<open>except Exception\<close> does not catch, and what
  \<^verbatim>\<open>str(error)\<close> raises for the exception \<open>error\<close>.

  A method that changes the manager and raises leaves the manager as it is at that
  moment: such a method returns \<open>Inl (e, m')\<close>, the exception with the manager left
  behind, or \<open>Inr m'\<close> when it completes.
\<close>

datatype error =
    ValueError string
  | GeminiKeyExhaustedError string "py_exception list"
  | IndexError
  | Uncaught py_exception
  | StrRaised py_exception

text \<open>The instance attributes of \<^verbatim>\<open>GeminiKeyManager\<close> (the lock apart).\<close>

record GeminiKeyManager =
  records :: "GeminiKeyRecord list"
  next_index :: nat
  last_used_index :: "nat option"

section \<open>Masking\<close>

text \<open>
  Python slices: \<^verbatim>\<open>s[:n]\<close> keeps at most the first \<open>n\<close> characters, and
  \<^verbatim>\<open>s[-n:]\<close> (for \<open>n > 0\<close>) starts \<open>n\<close> characters before the end, or at the
  start when the string is shorter than \<open>n\<close>.
\<close>

definition slice_to :: "nat \<Rightarrow> 'a list \<Rightarrow> 'a list" where
  "slice_to n s = take n s"

definition slice_from_end :: "nat \<Rightarrow> 'a list \<Rightarrow> 'a list" where
  "slice_from_end n s = drop (length s - n) s"

text \<open>
  \<^verbatim>\<open>
  def _mask_key(key):
      if len(key) <= 10:
          return f"{key[:2]}***{key[-2:]}"
      return f"{key[:6]}...{key[-4:]}"
  \<close>
\<close>

definition mask_key :: "string \<Rightarrow> string" where
  "mask_key key =
     (if length key \<le> 10 then slice_to 2 key @ ''***'' @ slice_from_end 2 key
      else slice_to 6 key @ ''...'' @ slice_from_end 4 key)"

section \<open>Construction\<close>

text \<open>The record \<^verbatim>\<open>GeminiKeyRecord(raw_key=key, masked_key=...)\<close> with its defaults.\<close>

definition new_record :: "string \<Rightarrow> GeminiKeyRecord" where
  "new_record key =
     \<lparr> raw_key = key, masked_key = mask_key key, status = ''idle'', disabled = False,
       last_error = None, last_used_at = None, last_success_at = None,
       last_failure_at = None, success_count = 0, failure_count = 0, last_used = False \<rparr>"

text \<open>\<^verbatim>\<open>GeminiKeyManager.__init__\<close>: an empty list of keys is a \<^verbatim>\<open>ValueError\<close>.\<close>

definition init_manager :: "string list \<Rightarrow> error + GeminiKeyManager" where
  "init_manager keys =
     (if keys = [] then
        Inl (ValueError ''GeminiKeyManager requires at least one API key. Set GEMINI_API_KEYS or GEMINI_API_KEY.'')
      else
        Inr \<lparr> records = map new_record keys, next_index = 0, last_used_index = None \<rparr>)"

section \<open>Selection\<close>

text \<open>
  \<^verbatim>\<open>
  def _activate_next_index(self):
      with self._lock:
          total = len(self._records)
          for offset in range(total):
              index = (self._next_index + offset) % total
              record = self._records[index]
              if record.disabled:
                  continue
              record.status = "active"
              record.last_used_at = time.time()
              self._next_index = (index + 1) % total
              return index
          return None
  \<close>
  The loop over \<^verbatim>\<open>range(total)\<close> is a recursion over the offsets still to try. Inside
  the loop \<open>total\<close> is positive, so \<open>index\<close> is below \<open>total\<close> and the subscript
  never fails. \<open>now\<close> is what \<^verbatim>\<open>time.time()\<close> returns when a record is found.
\<close>

fun scan_offsets :: "timestamp \<Rightarrow> GeminiKeyManager \<Rightarrow> nat list \<Rightarrow> nat option \<times> GeminiKeyManager" where
  "scan_offsets now m [] = (None, m)"
| "scan_offsets now m (offset # rest) =
     (let total = length (records m);
          index = (next_index m + offset) mod total;
          record = records m ! index
      in if disabled record then scan_offsets now m rest
         else (Some index,
               m\<lparr>records := (records m)[index := record\<lparr>status := ''active'', last_used_at := Some now\<rparr>],
                 next_index := (index + 1) mod total\<rparr>))"

definition activate_next_index :: "timestamp \<Rightarrow> GeminiKeyManager \<Rightarrow> nat option \<times> GeminiKeyManager" where
  "activate_next_index now m = scan_offsets now m [0..<length (records m)]"

section \<open>Recording an outcome\<close>

text \<open>
  \<^verbatim>\<open>self._records[i].field = value\<close> reads the list at \<open>i\<close> (an \<^verbatim>\<open>IndexError\<close>
  when \<open>i\<close> is out of range) and changes the record found there.
\<close>

definition update_record ::
  "nat \<Rightarrow> (GeminiKeyRecord \<Rightarrow> GeminiKeyRecord) \<Rightarrow> GeminiKeyRecord list \<Rightarrow> error + GeminiKeyRecord list" where
  "update_record i f recs = (if i < length recs then Inr (recs[i := f (recs ! i)]) else Inl IndexError)"

text \<open>
  \<^verbatim>\<open>
  def _record_success(self, index):
      now = time.time()
      with self._lock:
          if self._last_used_index is not None and self._last_used_index != index:
              self._records[self._last_used_index].last_used = False
          record = self._records[index]
          record.status = "healthy"
          record.last_error = None
          record.last_success_at = now
          record.success_count += 1
          record.last_used = True
          record.last_used_at = now
          self._last_used_index = index
  \<close>
\<close>

definition record_success ::
  "timestamp \<Rightarrow> nat \<Rightarrow> GeminiKeyManager \<Rightarrow> (error \<times> GeminiKeyManager) + GeminiKeyManager" where
  "record_success now index m =
     (case (case last_used_index m of
              None \<Rightarrow> Inr (records m)
            | Some previous \<Rightarrow>
                if previous \<noteq> index
                then update_record previous (\<lambda>record. record\<lparr>last_used := False\<rparr>) (records m)
                else Inr (records m)) of
        Inl e \<Rightarrow> Inl (e, m)
      | Inr recs \<Rightarrow>
          (case update_record index
                  (\<lambda>record. record\<lparr>status := ''healthy'', last_error := None,
                                    last_success_at := Some now,
                                    success_count := success_count record + 1,
                                    last_used := True, last_used_at := Some now\<rparr>) recs of
             Inl e \<Rightarrow> Inl (e, m\<lparr>records := recs\<rparr>)
           | Inr recs' \<Rightarrow> Inr (m\<lparr>records := recs', last_used_index := Some index\<rparr>)))"

text \<open>
  \<^verbatim>\<open>
  def _record_failure(self, index, error):
      now = time.time()
      with self._lock:
          record = self._records[index]
          record.status = "failed"
          record.last_error = str(error)
          record.last_failure_at = now
          record.failure_count += 1
          record.disabled = True
          record.last_used = False
          if self._last_used_index == index:
              self._last_used_index = None
  \<close>
\<close>

text \<open>
  The assignments run in the order written: \<^verbatim>\<open>status\<close> is already \<^verbatim>\<open>"failed"\<close>
  when \<^verbatim>\<open>str(error)\<close> is evaluated, and when that raises, the record is left with
  its new status and nothing else changed: not disabled.
\<close>

definition record_failure ::
  "timestamp \<Rightarrow> nat \<Rightarrow> py_exception \<Rightarrow> GeminiKeyManager \<Rightarrow>
   (error \<times> GeminiKeyManager) + GeminiKeyManager" where
  "record_failure now index exc m =
     (case update_record index (\<lambda>record. record\<lparr>status := ''failed''\<rparr>) (records m) of
        Inl e \<Rightarrow> Inl (e, m)
      | Inr recs \<Rightarrow>
          (case exc_str exc of
             None \<Rightarrow> Inl (StrRaised exc, m\<lparr>records := recs\<rparr>)
           | Some text \<Rightarrow>
               Inr (m\<lparr>records :=
                       recs[index := (recs ! index)\<lparr>last_error := Some text,
                                                     last_failure_at := Some now,
                                                     failure_count := failure_count (recs ! index) + 1,
                                                     disabled := True, last_used := False\<rparr>],
                      last_used_index := (if last_used_index m = Some index then None
                                          else last_used_index m)\<rparr>)))"

section \<open>Status reporting\<close>

text \<open>
  A status entry is a dictionary from field names to Python values. The rendering of
  a timestamp, \<^verbatim>\<open>datetime.fromtimestamp(ts, tz=timezone.utc).isoformat()\<close>, belongs
  to the standard library and is a parameter \<open>isoformat\<close>.
\<close>

datatype py_value = PyNone | PyBool bool | PyInt int | PyStr string

definition format_ts :: "(timestamp \<Rightarrow> string) \<Rightarrow> timestamp option \<Rightarrow> py_value" where
  "format_ts isoformat ts = (case ts of None \<Rightarrow> PyNone | Some t \<Rightarrow> PyStr (isoformat t))"

definition py_optional_str :: "string option \<Rightarrow> py_value" where
  "py_optional_str v = (case v of None \<Rightarrow> PyNone | Some s \<Rightarrow> PyStr s)"

definition status_entry ::
  "(timestamp \<Rightarrow> string) \<Rightarrow> nat \<Rightarrow> GeminiKeyRecord \<Rightarrow> (string \<rightharpoonup> py_value)" where
  "status_entry isoformat idx record =
     [''index'' \<mapsto> PyInt (int idx),
      ''maskedKey'' \<mapsto> PyStr (masked_key record),
      ''status'' \<mapsto> PyStr (status record),
      ''disabled'' \<mapsto> PyBool (disabled record),
      ''lastError'' \<mapsto> py_optional_str (last_error record),
      ''lastUsedAt'' \<mapsto> format_ts isoformat (last_used_at record),
      ''lastSuccessAt'' \<mapsto> format_ts isoformat (last_success_at record),
      ''lastFailureAt'' \<mapsto> format_ts isoformat (last_failure_at record),
      ''successCount'' \<mapsto> PyInt (success_count record),
      ''failureCount'' \<mapsto> PyInt (failure_count record),
      ''isLastUsed'' \<mapsto> PyBool (last_used record)]"

text \<open>\<^verbatim>\<open>get_statuses\<close>: one entry per record, in the order of \<^verbatim>\<open>enumerate\<close>.\<close>

definition get_statuses ::
  "(timestamp \<Rightarrow> string) \<Rightarrow> GeminiKeyManager \<Rightarrow> (string \<rightharpoonup> py_value) list" where
  "get_statuses isoformat m =
     map (\<lambda>(idx, record). status_entry isoformat idx record) (enumerate 0 (records m))"

text \<open>\<^verbatim>\<open>sum(1 for record in self._records if not record.disabled)\<close>\<close>

definition available_key_count :: "GeminiKeyManager \<Rightarrow> int" where
  "available_key_count m =
     sum_list (map (\<lambda>record. 1) (filter (\<lambda>record. \<not> disabled record) (records m)))"

section \<open>Running the caller's function\<close>

text \<open>
  The caller's function and the clock act on a world outside the manager, of any type
  \<open>'w\<close>: \<open>fn key w\<close> is what the call \<^verbatim>\<open>fn(key)\<close> does in the world \<open>w\<close>, the
  value it returns (\<open>Inr\<close>) or the exception it raises (\<open>Inl\<close>) and the world
  after; \<open>time w\<close> is one reading of \<^verbatim>\<open>time.time()\<close>. \<^verbatim>\<open>except Exception\<close> catches
  the exceptions whose class derives from \<^verbatim>\<open>Exception\<close>; any other one leaves
  \<^verbatim>\<open>run_with_key\<close> as it is, with the key just selected still \<^verbatim>\<open>"active"\<close>. The
  handler calls \<^verbatim>\<open>_record_failure\<close> outside any \<^verbatim>\<open>try\<close>: what that call raises
  leaves \<^verbatim>\<open>run_with_key\<close> too. A call of \<open>fn\<close> that never returns is not among the
  outcomes.

  \<^verbatim>\<open>
  def run_with_key(self, fn):
      errors = []
      for _ in range(len(self._records)):
          index = self._activate_next_index()
          if index is None:
              break
          key_record = self._records[index]
          key = key_record.raw_key
          try:
              result = fn(key)
          except Exception as exc:
              errors.append(exc)
              self._record_failure(index, exc)
              continue
          self._record_success(index)
          return result
      raise GeminiKeyExhaustedError(
          "All Gemini API keys failed. Review key statuses for details.", errors)
  \<close>
  The first argument of \<open>run_loop\<close> counts the iterations left. The selection reads
  the clock only when it finds a record, so the world moves past that reading only
  then.
\<close>

definition exhausted_message :: string where
  "exhausted_message = ''All Gemini API keys failed. Review key statuses for details.''"

definition getitem :: "'a list \<Rightarrow> nat \<Rightarrow> error + 'a" where
  "getitem xs i = (if i < length xs then Inr (xs ! i) else Inl IndexError)"

fun run_loop ::
  "nat \<Rightarrow> ('w \<Rightarrow> timestamp \<times> 'w) \<Rightarrow> (string \<Rightarrow> 'w \<Rightarrow> (py_exception + 'a) \<times> 'w) \<Rightarrow>
   py_exception list \<Rightarrow> GeminiKeyManager \<Rightarrow> 'w \<Rightarrow> (error + 'a) \<times> GeminiKeyManager \<times> 'w" where
  "run_loop 0 time fn errors m w = (Inl (GeminiKeyExhaustedError exhausted_message errors), m, w)"
| "run_loop (Suc n) time fn errors m w =
     (case activate_next_index (fst (time w)) m of
        (None, m0) \<Rightarrow> (Inl (GeminiKeyExhaustedError exhausted_message errors), m0, w)
      | (Some index, m1) \<Rightarrow>
          (let w1 = snd (time w) in
           case getitem (records m1) index of
             Inl e \<Rightarrow> (Inl e, m1, w1)
           | Inr key_record \<Rightarrow>
               (let key = raw_key key_record in
                case fn key w1 of
                  (Inl exc, w2) \<Rightarrow>
                    if is_Exception exc then
                      (let (now, w3) = time w2 in
                       case record_failure now index exc m1 of
                         Inl (e, m2) \<Rightarrow> (Inl e, m2, w3)
                       | Inr m2 \<Rightarrow> run_loop n time fn (errors @ [exc]) m2 w3)
                    else (Inl (Uncaught exc), m1, w2)
                | (Inr result, w2) \<Rightarrow>
                    (let (now, w3) = time w2 in
                     case record_success now index m1 of
                       Inl (e, m2) \<Rightarrow> (Inl e, m2, w3)
                     | Inr m2 \<Rightarrow> (Inr result, m2, w3)))))"

definition run_with_key ::
  "('w \<Rightarrow> timestamp \<times> 'w) \<Rightarrow> (string \<Rightarrow> 'w \<Rightarrow> (py_exception + 'a) \<times> 'w) \<Rightarrow>
   GeminiKeyManager \<Rightarrow> 'w \<Rightarrow> (error + 'a) \<times> GeminiKeyManager \<times> 'w" where
  "run_with_key time fn m w = run_loop (length (records m)) time fn [] m w"

section \<open>Construction from the environment\<close>

text \<open>
  Three methods of Python's \<^verbatim>\<open>str\<close>, on code points below 256.
  \<^verbatim>\<open>splitlines()\<close> ends a line at \<^verbatim>\<open>\n\<close>, \<^verbatim>\<open>\r\<close>, \<^verbatim>\<open>\r\n\<close>, \<^verbatim>\<open>\v\<close>, \<^verbatim>\<open>\f\<close>,
  \<^verbatim>\<open>\x1c\<close>, \<^verbatim>\<open>\x1d\<close>, \<^verbatim>\<open>\x1e\<close> and \<^verbatim>\<open>\x85\<close>, drops the line ends, and gives no
  empty last line. \<^verbatim>\<open>split(",")\<close> cuts at every comma. \<^verbatim>\<open>strip()\<close> removes the
  white space at both ends: \<^verbatim>\<open>\t\<close>, \<^verbatim>\<open>\n\<close>, \<^verbatim>\<open>\v\<close>, \<^verbatim>\<open>\f\<close>, \<^verbatim>\<open>\r\<close>,
  \<^verbatim>\<open>\x1c\<close> to \<^verbatim>\<open>\x1f\<close>, the space, \<^verbatim>\<open>\x85\<close> and \<^verbatim>\<open>\xa0\<close>.
\<close>

definition is_linebreak :: "char \<Rightarrow> bool" where
  "is_linebreak c \<longleftrightarrow>
     c \<in> set [CHR 0x0A, CHR 0x0B, CHR 0x0C, CHR 0x0D, CHR 0x1C, CHR 0x1D, CHR 0x1E, CHR 0x85]"

definition is_space :: "char \<Rightarrow> bool" where
  "is_space c \<longleftrightarrow>
     c \<in> set [CHR 0x09, CHR 0x0A, CHR 0x0B, CHR 0x0C, CHR 0x0D, CHR 0x1C, CHR 0x1D, CHR 0x1E,
               CHR 0x1F, CHR 0x20, CHR 0x85, CHR 0xA0]"

fun splitlines_from :: "string \<Rightarrow> string \<Rightarrow> string list" where
  "splitlines_from line [] = (if line = [] then [] else [line])"
| "splitlines_from line (c # cs) =
     (if c = CHR 0x0D then
        (case cs of
           [] \<Rightarrow> [line]
         | d # ds \<Rightarrow> if d = CHR 0x0A then line # splitlines_from [] ds
                     else line # splitlines_from [] (d # ds))
      else if is_linebreak c then line # splitlines_from [] cs
      else splitlines_from (line @ [c]) cs)"

definition splitlines :: "string \<Rightarrow> string list" where
  "splitlines s = splitlines_from [] s"

fun split_on :: "char \<Rightarrow> string \<Rightarrow> string list" where
  "split_on sep [] = [[]]"
| "split_on sep (c # cs) =
     (if c = sep then [] # split_on sep cs
      else (case split_on sep cs of
              [] \<Rightarrow> [[c]]
            | part # parts \<Rightarrow> (c # part) # parts))"

definition strip :: "string \<Rightarrow> string" where
  "strip s = rev (dropWhile is_space (rev (dropWhile is_space s)))"

text \<open>
  \<^verbatim>\<open>
  def from_environment(cls):
      load_dotenv()
      raw_keys = os.getenv("GEMINI_API_KEYS")
      keys = []
      if raw_keys:
          for chunk in raw_keys.splitlines():
              parts = [part.strip() for part in chunk.split(",") if part.strip()]
              keys.extend(parts)
      else:
          single_key = os.getenv("GEMINI_API_KEY")
          if single_key:
              keys = [single_key.strip()]
      unique_keys = []
      seen = set()
      for key in keys:
          if key and key not in seen:
              seen.add(key)
              unique_keys.append(key)
      if not unique_keys:
          raise ValueError("No Gemini API keys found. ...")
      return cls(unique_keys)
  \<close>
  The environment \<open>env\<close> is what \<^verbatim>\<open>os.getenv\<close> sees once \<^verbatim>\<open>load_dotenv()\<close> has run.
  A string is true in a condition when it is not empty, and \<^verbatim>\<open>None\<close> is false.
\<close>

definition chunk_parts :: "string \<Rightarrow> string list" where
  "chunk_parts chunk = map strip (filter (\<lambda>part. strip part \<noteq> []) (split_on (CHR '','') chunk))"

fun extend_chunks :: "string list \<Rightarrow> string list \<Rightarrow> string list" where
  "extend_chunks keys [] = keys"
| "extend_chunks keys (chunk # chunks) = extend_chunks (keys @ chunk_parts chunk) chunks"

definition collect_keys :: "(string \<rightharpoonup> string) \<Rightarrow> string list" where
  "collect_keys env =
     (case env ''GEMINI_API_KEYS'' of
        Some raw_keys \<Rightarrow>
          if raw_keys \<noteq> [] then extend_chunks [] (splitlines raw_keys)
          else (case env ''GEMINI_API_KEY'' of
                  Some single_key \<Rightarrow> if single_key \<noteq> [] then [strip single_key] else []
                | None \<Rightarrow> [])
      | None \<Rightarrow>
          (case env ''GEMINI_API_KEY'' of
             Some single_key \<Rightarrow> if single_key \<noteq> [] then [strip single_key] else []
           | None \<Rightarrow> []))"

fun unique_loop :: "string list \<Rightarrow> string set \<Rightarrow> string list \<Rightarrow> string list" where
  "unique_loop unique_keys seen [] = unique_keys"
| "unique_loop unique_keys seen (key # keys) =
     (if key \<noteq> [] \<and> key \<notin> seen then unique_loop (unique_keys @ [key]) (insert key seen) keys
      else unique_loop unique_keys seen keys)"

definition from_environment :: "(string \<rightharpoonup> string) \<Rightarrow> error + GeminiKeyManager" where
  "from_environment env =
     (let unique_keys = unique_loop [] {} (collect_keys env) in
      if unique_keys = [] then
        Inl (ValueError ''No Gemini API keys found. Provide GEMINI_API_KEYS or GEMINI_API_KEY.'')
      else init_manager unique_keys)"

section \<open>Masking: the specification's wording\<close>

text \<open>The first \<open>n\<close> and the last \<open>n\<close> characters of a string (all of it when it is shorter).\<close>

definition first_chars :: "nat \<Rightarrow> 'a list \<Rightarrow> 'a list" where
  "first_chars n s = take n s"

definition last_chars :: "nat \<Rightarrow> 'a list \<Rightarrow> 'a list" where
  "last_chars n s = rev (take n (rev s))"

definition masked_identity_spec :: "string \<Rightarrow> string" where
  "masked_identity_spec secret =
     (if length secret \<le> 10 then first_chars 2 secret @ ''***'' @ last_chars 2 secret
      else first_chars 6 secret @ ''...'' @ last_chars 4 secret)"

section \<open>Sequences of bookkeeping calls\<close>

text \<open>
  The three bookkeeping methods run under the lock, one at a time, whatever the
  threads that call them. A history of the manager is a list of such calls, each with
  the clock reading it takes. A call with an index out of range, which the manager
  never makes, raises and ends the history. A call of \<^verbatim>\<open>_record_failure\<close> in which
  \<^verbatim>\<open>str(error)\<close> raises leaves the manager with what it had written by then, and
  the history goes on from there.
\<close>

datatype call =
    Activate timestamp
  | RecordSuccess timestamp nat
  | RecordFailure timestamp nat py_exception

fun apply_call :: "call \<Rightarrow> GeminiKeyManager \<Rightarrow> error + GeminiKeyManager" where
  "apply_call (Activate now) m = Inr (snd (activate_next_index now m))"
| "apply_call (RecordSuccess now index) m =
     (case record_success now index m of Inl (e, m') \<Rightarrow> Inl e | Inr m' \<Rightarrow> Inr m')"
| "apply_call (RecordFailure now index exc) m =
     (case record_failure now index exc m of
        Inl (e, m') \<Rightarrow> if e = IndexError then Inl e else Inr m'
      | Inr m' \<Rightarrow> Inr m')"

fun apply_calls :: "call list \<Rightarrow> GeminiKeyManager \<Rightarrow> error + GeminiKeyManager" where
  "apply_calls [] m = Inr m"
| "apply_calls (c # cs) m = (case apply_call c m of Inl e \<Rightarrow> Inl e | Inr m' \<Rightarrow> apply_calls cs m')"

text \<open>
  At most one record carries \<^verbatim>\<open>last_used\<close>, and \<^verbatim>\<open>_last_used_index\<close> points at
  the record that carries it.
\<close>

definition single_last_used :: "GeminiKeyManager \<Rightarrow> bool" where
  "single_last_used m \<longleftrightarrow>
     (\<forall>i<length (records m). \<forall>j<length (records m).
        last_used (records m ! i) \<and> last_used (records m ! j) \<longrightarrow> i = j) \<and>
     (\<forall>i<length (records m). last_used (records m ! i) \<longrightarrow> last_used_index m = Some i)"

text \<open>The state the selection leaves when it returns \<open>index\<close>.\<close>

definition mark_active :: "timestamp \<Rightarrow> nat \<Rightarrow> GeminiKeyManager \<Rightarrow> GeminiKeyManager" where
  "mark_active now index m =
     m\<lparr>records := (records m)[index := (records m ! index)\<lparr>status := ''active'', last_used_at := Some now\<rparr>],
       next_index := (index + 1) mod length (records m)\<rparr>"

text \<open>The state \<^verbatim>\<open>_record_failure\<close> leaves behind when \<^verbatim>\<open>str(error)\<close> raises.\<close>

definition marked_failed :: "nat \<Rightarrow> GeminiKeyManager \<Rightarrow> GeminiKeyManager" where
  "marked_failed index m =
     m\<lparr>records := (records m)[index := (records m ! index)\<lparr>status := ''failed''\<rparr>]\<rparr>"

text \<open>The records once \<^verbatim>\<open>_record_success\<close> has cleared the flag of the previous holder.\<close>

definition clear_previous :: "nat \<Rightarrow> GeminiKeyManager \<Rightarrow> GeminiKeyRecord list" where
  "clear_previous index m =
     (case last_used_index m of
        None \<Rightarrow> records m
      | Some previous \<Rightarrow>
          if previous \<noteq> index
          then (records m)[previous := (records m ! previous)\<lparr>last_used := False\<rparr>]
          else records m)"

text \<open>Every record that carries \<^verbatim>\<open>last_used\<close> is the one \<^verbatim>\<open>_last_used_index\<close> names.\<close>

definition holder_inv :: "GeminiKeyManager \<Rightarrow> bool" where
  "holder_inv m \<longleftrightarrow>
     (\<forall>i<length (records m). last_used (records m ! i) \<longrightarrow> last_used_index m = Some i)"

text \<open>From \<open>m\<close> to \<open>m'\<close> the pool keeps its size and record \<open>i\<close>, once disabled, stays so.\<close>

definition stays_disabled :: "nat \<Rightarrow> GeminiKeyManager \<Rightarrow> GeminiKeyManager \<Rightarrow> bool" where
  "stays_disabled i m m' \<longleftrightarrow>
     length (records m') = length (records m) \<and>
     (i < length (records m) \<and> disabled (records m ! i) \<longrightarrow> disabled (records m' ! i))"

section \<open>Environment parsing: the specification's wording\<close>

text \<open>
  Duplicates removed, the first occurrence of each entry kept in its place; the
  entries of the multi-key value, split into lines, each line split on commas, every
  entry trimmed and the empty ones discarded; the entry of the single-key value,
  trimmed; and the keys the environment configures: the single-key entry when the
  multi-key variable is absent or empty.
\<close>

fun first_seen :: "'a list \<Rightarrow> 'a list" where
  "first_seen [] = []"
| "first_seen (x # xs) = x # first_seen (removeAll x xs)"

definition multi_key_entries :: "string \<Rightarrow> string list" where
  "multi_key_entries v =
     filter (\<lambda>entry. entry \<noteq> [])
       (map strip (concat (map (split_on (CHR '','')) (splitlines v))))"

definition single_key_entries :: "(string \<rightharpoonup> string) \<Rightarrow> string list" where
  "single_key_entries env =
     (case env ''GEMINI_API_KEY'' of
        None \<Rightarrow> []
      | Some v \<Rightarrow> filter (\<lambda>entry. entry \<noteq> []) [strip v])"

definition configured_keys :: "(string \<rightharpoonup> string) \<Rightarrow> string list" where
  "configured_keys env =
     first_seen
       (case env ''GEMINI_API_KEYS'' of
          None \<Rightarrow> single_key_entries env
        | Some v \<Rightarrow> if v = [] then single_key_entries env else multi_key_entries v)"

section \<open>Rotation order\<close>

text \<open>
  The indices in the order the selection examines them: from the cursor upwards,
  wrapping round at the size of the pool. The eligible indices are the ones among
  them whose record is not disabled, in that order.
\<close>

definition rotation :: "GeminiKeyManager \<Rightarrow> nat list" where
  "rotation m =
     map (\<lambda>offset. (next_index m + offset) mod length (records m)) [0..<length (records m)]"

definition eligible :: "GeminiKeyManager \<Rightarrow> nat list" where
  "eligible m = filter (\<lambda>index. \<not> disabled (records m ! index)) (rotation m)"

text \<open>
  \<^verbatim>\<open>_last_used_index\<close>, when set, is a position of the list of records. Construction
  and every bookkeeping call keep this, and \<^verbatim>\<open>_record_success\<close> needs it to clear the
  previous holder's flag without an \<^verbatim>\<open>IndexError\<close>.
\<close>

definition index_ok :: "GeminiKeyManager \<Rightarrow> bool" where
  "index_ok m \<longleftrightarrow>
     (\<forall>previous. last_used_index m = Some previous \<longrightarrow> previous < length (records m))"

text \<open>The state \<open>m'\<close> comes from \<open>m\<close> by some sequence of bookkeeping calls.\<close>

definition reaches :: "GeminiKeyManager \<Rightarrow> GeminiKeyManager \<Rightarrow> bool" where
  "reaches m m' \<longleftrightarrow> (\<exists>calls. apply_calls calls m = Inr m')"

section \<open>Observing the calls of the caller's function\<close>

text \<open>
  To say which keys a run hands to the caller's function, and in which order, the
  function is run beside a log: the world becomes the pair of the caller's world and
  the list, oldest first, of the calls made so far, each with the key it received and
  its outcome. \<open>record_calls fn\<close> does what \<open>fn\<close> does and appends its call;
  \<open>beside_log time\<close> reads the clock and leaves the log alone. The manager never
  sees the log: the run beside it is the run itself.
\<close>

definition record_calls ::
  "(string \<Rightarrow> 'w \<Rightarrow> (py_exception + 'a) \<times> 'w) \<Rightarrow> string \<Rightarrow>
   'w \<times> (string \<times> (py_exception + 'a)) list \<Rightarrow>
   (py_exception + 'a) \<times> ('w \<times> (string \<times> (py_exception + 'a)) list)" where
  "record_calls fn key wl =
     (case fn key (fst wl) of (out, w') \<Rightarrow> (out, (w', snd wl @ [(key, out)])))"

definition beside_log :: "('w \<Rightarrow> timestamp \<times> 'w) \<Rightarrow> 'w \<times> 'l \<Rightarrow> timestamp \<times> ('w \<times> 'l)" where
  "beside_log time wl = (case time (fst wl) of (now, w') \<Rightarrow> (now, (w', snd wl)))"

text \<open>
  More generally, a world of any shape keeps a log \<open>calls w\<close> when the function appends
  its own call to it and the clock leaves it alone.
\<close>

definition logs_calls ::
  "('w \<Rightarrow> (string \<times> (py_exception + 'a)) list) \<Rightarrow> ('w \<Rightarrow> timestamp \<times> 'w) \<Rightarrow>
   (string \<Rightarrow> 'w \<Rightarrow> (py_exception + 'a) \<times> 'w) \<Rightarrow> bool" where
  "logs_calls calls time fn \<longleftrightarrow>
     (\<forall>key w. calls (snd (fn key w)) = calls w @ [(key, fst (fn key w))]) \<and>
     (\<forall>w. calls (snd (time w)) = calls w)"

text \<open>The raw keys of the records at the given indices.\<close>

definition keys_at :: "GeminiKeyManager \<Rightarrow> nat list \<Rightarrow> string list" where
  "keys_at m indices = map (\<lambda>index. raw_key (records m ! index)) indices"

text \<open>What \<^verbatim>\<open>_record_success\<close> leaves on the record of a key that is not disabled.\<close>

definition success_recorded :: "nat \<Rightarrow> GeminiKeyManager \<Rightarrow> bool" where
  "success_recorded index m \<longleftrightarrow>
     status (records m ! index) = ''healthy'' \<and> last_error (records m ! index) = None \<and>
     last_used (records m ! index) \<and> \<not> disabled (records m ! index) \<and>
     last_used_index m = Some index"

text \<open>
  How the attempt on the record at \<open>index\<close> ends a run that goes from \<open>m\<close> to \<open>m'\<close> with
  result \<open>r\<close>, by the outcome \<open>out\<close> of the caller's function. A value is returned with
  the success recorded, and the rotation goes on with \<open>others\<close> before \<open>index\<close>. An
  exception outside \<^verbatim>\<open>Exception\<close> is not caught: it leaves the run with the key as
  the selection marked it. An exception that is caught and whose \<^verbatim>\<open>__str__\<close> raises
  leaves \<^verbatim>\<open>_record_failure\<close> after the status is written and before the key is
  disabled. A caught exception whose \<^verbatim>\<open>__str__\<close> returns does not end the run.
\<close>

definition stops_run ::
  "(py_exception + 'a) \<Rightarrow> (error + 'a) \<Rightarrow> nat \<Rightarrow> nat list \<Rightarrow>
   GeminiKeyManager \<Rightarrow> GeminiKeyManager \<Rightarrow> bool" where
  "stops_run out r index others m m' =
     (case out of
        Inr v \<Rightarrow>
          r = Inr v \<and> eligible m' = others @ [index] \<and> success_recorded index m' \<and>
          success_count (records m' ! index) = success_count (records m ! index) + 1
      | Inl exc \<Rightarrow>
          \<not> disabled (records m' ! index) \<and>
          (if is_Exception exc
           then exc_str exc = None \<and> r = Inl (StrRaised exc) \<and>
                status (records m' ! index) = ''failed''
           else r = Inl (Uncaught exc) \<and> status (records m' ! index) = ''active''))"

text \<open>
  Consecutive calls: of the selection, one per clock reading, and of
  \<^verbatim>\<open>run_with_key\<close>, one per function handed in.
\<close>

fun activate_many :: "timestamp list \<Rightarrow> GeminiKeyManager \<Rightarrow> nat option list \<times> GeminiKeyManager" where
  "activate_many [] m = ([], m)"
| "activate_many (now # nows) m =
     (case activate_next_index now m of
        (index, m1) \<Rightarrow> (case activate_many nows m1 of (indices, m2) \<Rightarrow> (index # indices, m2)))"

fun run_many ::
  "('w \<Rightarrow> timestamp \<times> 'w) \<Rightarrow> (string \<Rightarrow> 'w \<Rightarrow> (py_exception + 'a) \<times> 'w) list \<Rightarrow>
   GeminiKeyManager \<Rightarrow> 'w \<Rightarrow> (error + 'a) list \<times> GeminiKeyManager \<times> 'w" where
  "run_many time [] m w = ([], m, w)"
| "run_many time (fn # fns) m w =
     (case run_with_key time fn m w of
        (r, m1, w1) \<Rightarrow> (case run_many time fns m1 w1 of (rs, m2, w2) \<Rightarrow> (r # rs, m2, w2)))"

section \<open>The callables of the unit tests\<close>

text \<open>
  \<^verbatim>\<open>tests/unit_tests/test_key_manager.py\<close> runs the manager with \<^verbatim>\<open>recorder\<close>
  (returns its key), \<^verbatim>\<open>fail_for_bad\<close> (raises on the key \<^verbatim>\<open>"bad"\<close>) and
  \<^verbatim>\<open>always_fail\<close>. Their world here is a clock that advances by one at each reading;
  the list the tests append the received keys to is the log of \<open>record_calls\<close>.
\<close>

definition test_time :: "nat \<Rightarrow> timestamp \<times> nat" where
  "test_time w = (real w, Suc w)"

definition recorder :: "string \<Rightarrow> nat \<Rightarrow> (py_exception + string) \<times> nat" where
  "recorder key w = (Inr key, w)"

definition fail_for_bad :: "string \<Rightarrow> nat \<Rightarrow> (py_exception + string) \<times> nat" where
  "fail_for_bad key w =
     (if key = ''bad'' then Inl (PyException ''RuntimeError'' True (Some ''bad key disabled''))
      else Inr key, w)"

definition always_fail :: "string \<Rightarrow> nat \<Rightarrow> (py_exception + string) \<times> nat" where
  "always_fail key w = (Inl (PyException ''RuntimeError'' True (Some ''no keys work'')), w)"

text \<open>
  Three callables that are not in the tests: \<open>interrupted\<close> raises
  \<^verbatim>\<open>KeyboardInterrupt\<close> and \<open>exit_for_bad\<close> raises \<^verbatim>\<open>SystemExit\<close> on the key
  \<^verbatim>\<open>"bad"\<close>, both subclasses of \<^verbatim>\<open>BaseException\<close> only; \<open>unprintable\<close> raises a
  subclass of \<^verbatim>\<open>Exception\<close> whose \<^verbatim>\<open>__str__\<close> raises.
\<close>

definition interrupted :: "string \<Rightarrow> nat \<Rightarrow> (py_exception + string) \<times> nat" where
  "interrupted key w = (Inl (PyException ''KeyboardInterrupt'' False (Some [])), w)"

definition exit_for_bad :: "string \<Rightarrow> nat \<Rightarrow> (py_exception + string) \<times> nat" where
  "exit_for_bad key w =
     (if key = ''bad'' then Inl (PyException ''SystemExit'' False (Some ''1''))
      else Inr key, w)"

definition unprintable :: "string \<Rightarrow> nat \<Rightarrow> (py_exception + string) \<times> nat" where
  "unprintable key w = (Inl (PyException ''Unprintable'' True None), w)"
section \<open>Facts about the bookkeeping methods\<close>

lemma init_manager_records:
  "init_manager keys = Inr m \<Longrightarrow> records m = map new_record keys"
  by (auto simp: init_manager_def split: if_splits)

lemma scan_offsets_cases:
  assumes "records m \<noteq> [] \<or> offsets = []"
  shows "scan_offsets now m offsets = (None, m) \<or>
         (\<exists>index<length (records m). \<not> disabled (records m ! index) \<and>
            scan_offsets now m offsets = (Some index, mark_active now index m))"
  using assms
proof (induction offsets)
  case Nil
  then show ?case by simp
next
  case (Cons offset rest)
  then have ne: "records m \<noteq> []" by simp
  let ?index = "(next_index m + offset) mod length (records m)"
  have lt: "?index < length (records m)" using ne by simp
  show ?case
  proof (cases "disabled (records m ! ?index)")
    case True
    then show ?thesis using Cons.IH ne by (simp add: Let_def)
  next
    case False
    then show ?thesis using lt by (auto simp: Let_def mark_active_def)
  qed
qed

lemma activate_cases:
  "activate_next_index now m = (None, m) \<or>
   (\<exists>index<length (records m). \<not> disabled (records m ! index) \<and>
      activate_next_index now m = (Some index, mark_active now index m))"
  unfolding activate_next_index_def by (rule scan_offsets_cases) auto

lemma length_mark_active [simp]: "length (records (mark_active now index m)) = length (records m)"
  by (simp add: mark_active_def)

lemma update_record_Inr:
  "update_record i f recs = Inr recs' \<longleftrightarrow> i < length recs \<and> recs' = recs[i := f (recs ! i)]"
  by (auto simp: update_record_def)

lemma record_failure_Inr:
  "record_failure now index exc m = Inr m' \<longleftrightarrow>
     index < length (records m) \<and> exc_str exc \<noteq> None \<and>
     m' = m\<lparr>records := (records m)[index := (records m ! index)
               \<lparr>status := ''failed'', last_error := exc_str exc,
                last_failure_at := Some now,
                failure_count := failure_count (records m ! index) + 1,
                disabled := True, last_used := False\<rparr>],
             last_used_index := (if last_used_index m = Some index then None
                                 else last_used_index m)\<rparr>"
  by (auto simp: record_failure_def update_record_def split: sum.splits option.splits)

lemma record_failure_Inl:
  "record_failure now index exc m = Inl (e, m') \<longleftrightarrow>
     (length (records m) \<le> index \<and> e = IndexError \<and> m' = m) \<or>
     (index < length (records m) \<and> exc_str exc = None \<and> e = StrRaised exc \<and>
      m' = marked_failed index m)"
  by (auto simp: record_failure_def update_record_def marked_failed_def
      split: sum.splits option.splits)

lemma length_marked_failed [simp]:
  "length (records (marked_failed index m)) = length (records m)"
  by (simp add: marked_failed_def)

lemma length_clear_previous [simp]: "length (clear_previous index m) = length (records m)"
  by (simp add: clear_previous_def split: option.splits)

lemma record_success_Inr:
  "record_success now index m = Inr m' \<longleftrightarrow>
     index < length (records m) \<and>
     (\<forall>previous. last_used_index m = Some previous \<longrightarrow> previous < length (records m)) \<and>
     m' = m\<lparr>records := (clear_previous index m)[index := (clear_previous index m ! index)
               \<lparr>status := ''healthy'', last_error := None, last_success_at := Some now,
                success_count := success_count (clear_previous index m ! index) + 1,
                last_used := True, last_used_at := Some now\<rparr>],
             last_used_index := Some index\<rparr>"
  by (auto simp: record_success_def update_record_def clear_previous_def
      split: sum.splits option.splits if_splits)

lemma record_success_Inl:
  "record_success now index m = Inl (e, m') \<Longrightarrow>
   e = IndexError \<and> (index < length (records m) \<longrightarrow> m' = m)"
  by (auto simp: record_success_def update_record_def split: sum.splits option.splits if_splits)

lemma apply_call_cases:
  assumes "apply_call c m = Inr m'"
  shows "(\<exists>now. m' = snd (activate_next_index now m)) \<or>
         (\<exists>now index. record_success now index m = Inr m') \<or>
         (\<exists>now index exc. record_failure now index exc m = Inr m') \<or>
         (\<exists>index. m' = marked_failed index m)"
proof (cases c)
  case (Activate now)
  with assms show ?thesis by auto
next
  case (RecordSuccess now index)
  with assms show ?thesis by (auto split: sum.splits)
next
  case (RecordFailure now index exc)
  with assms show ?thesis
    by (auto simp: record_failure_Inl split: sum.splits prod.splits if_splits)
qed

lemma nth_update_if: "xs[i := x] ! j = (if i = j \<and> i < length xs then x else xs ! j)"
  by (cases "i < length xs") (auto simp: nth_list_update list_update_beyond)

section \<open>A run is a sequence of bookkeeping calls\<close>

lemma reaches_refl: "reaches m m"
  unfolding reaches_def by (rule exI [of _ "[]"]) simp

lemma reaches_step: "apply_call c m = Inr m1 \<Longrightarrow> reaches m1 m' \<Longrightarrow> reaches m m'"
  unfolding reaches_def
proof -
  assume c: "apply_call c m = Inr m1" and "\<exists>calls. apply_calls calls m1 = Inr m'"
  then obtain cs where "apply_calls cs m1 = Inr m'" by blast
  with c have "apply_calls (c # cs) m = Inr m'" by simp
  then show "\<exists>calls. apply_calls calls m = Inr m'" by blast
qed

lemma reaches_activate: "reaches (snd (activate_next_index now m)) m' \<Longrightarrow> reaches m m'"
  by (rule reaches_step [of "Activate now"]) simp_all

lemma reaches_record_failure:
  "record_failure now index exc m = Inr m1 \<Longrightarrow> reaches m1 m' \<Longrightarrow> reaches m m'"
  by (rule reaches_step [of "RecordFailure now index exc"]) simp_all

lemma reaches_record_failure_raised:
  assumes "record_failure now index exc m = Inl (e, m1)"
  shows "reaches m m1"
proof (cases "e = IndexError")
  case True
  with assms have "m1 = m" by (auto simp: record_failure_Inl)
  then show ?thesis by (simp add: reaches_refl)
next
  case False
  with assms have "apply_call (RecordFailure now index exc) m = Inr m1" by simp
  then show ?thesis using reaches_refl by (rule reaches_step)
qed

lemma reaches_record_success:
  "record_success now index m = Inr m1 \<Longrightarrow> reaches m1 m' \<Longrightarrow> reaches m m'"
  by (rule reaches_step [of "RecordSuccess now index"]) simp_all

lemma run_loop_reaches:
  "run_loop n time fn errors m w = (r, m', w') \<Longrightarrow> reaches m m'"
proof (induction n arbitrary: errors m w)
  case 0
  then show ?case by (simp add: reaches_refl)
next
  case (Suc n)
  obtain sel m1 where act: "activate_next_index (fst (time w)) m = (sel, m1)"
    by (cases "activate_next_index (fst (time w)) m")
  have "reaches m1 m'"
  proof (cases sel)
    case None
    with Suc.prems act show ?thesis by (simp add: reaches_refl)
  next
    case (Some index)
    show ?thesis
    proof (cases "getitem (records m1) index")
      case (Inl e)
      with Suc.prems act Some show ?thesis by (simp add: reaches_refl)
    next
      case (Inr key_record)
      obtain out w2 where fn: "fn (raw_key key_record) (snd (time w)) = (out, w2)"
        by (cases "fn (raw_key key_record) (snd (time w))")
      obtain now w3 where t: "time w2 = (now, w3)" by (cases "time w2")
      have idx: "index < length (records m1)"
        using act Some activate_cases [of "fst (time w)" m] by auto
      show ?thesis
      proof (cases out)
        case (Inl exc)
        show ?thesis
        proof (cases "is_Exception exc")
          case False
          with Suc.prems act Some Inr fn Inl show ?thesis by (simp add: reaches_refl)
        next
          case True
          show ?thesis
          proof (cases "record_failure now index exc m1")
            case e: (Inl em)
            obtain e m2 where em: "em = (e, m2)" by (cases em)
            with Suc.prems act Some Inr fn t Inl True e have "m' = m2" by simp
            with e em show ?thesis using reaches_record_failure_raised by blast
          next
            case m2: (Inr m2)
            with Suc.prems act Some Inr fn t Inl True
            have "run_loop n time fn (errors @ [exc]) m2 w3 = (r, m', w')" by simp
            then have "reaches m2 m'" by (rule Suc.IH)
            with m2 show ?thesis by (rule reaches_record_failure)
          qed
        qed
      next
        case v: (Inr v)
        show ?thesis
        proof (cases "record_success now index m1")
          case e: (Inl em)
          obtain e m2 where em: "em = (e, m2)" by (cases em)
          with Suc.prems act Some Inr fn t v e have "m' = m2" by simp
          moreover from e em idx have "m2 = m1" using record_success_Inl by blast
          ultimately show ?thesis by (simp add: reaches_refl)
        next
          case m2: (Inr m2)
          with Suc.prems act Some Inr fn t v have "m' = m2" by simp
          with m2 show ?thesis by (simp add: reaches_record_success reaches_refl)
        qed
      qed
    qed
  qed
  with act show ?case using reaches_activate [of "fst (time w)" m m'] by simp
qed


lemma run_with_key_reaches:
  "run_with_key time fn m w = (r, m', w') \<Longrightarrow> \<exists>calls. apply_calls calls m = Inr m'"
  using run_loop_reaches [of "length (records m)" time fn "[]" m w r m' w']
  by (simp add: run_with_key_def reaches_def)

section \<open>The identity of a record never changes\<close>

lemma map_field_update:
  "(\<And>record. g (f record) = g record) \<Longrightarrow> map g (recs[i := f (recs ! i)]) = map g recs"
  by (rule nth_equalityI) (simp_all add: nth_update_if)

lemma raw_keys_mark_active [simp]:
  "map raw_key (records (mark_active now index m)) = map raw_key (records m)"
  unfolding mark_active_def
  using map_field_update [of raw_key "\<lambda>record. record\<lparr>status := ''active'', last_used_at := Some now\<rparr>"]
  by simp

lemma masked_keys_mark_active [simp]:
  "map masked_key (records (mark_active now index m)) = map masked_key (records m)"
  unfolding mark_active_def
  using map_field_update [of masked_key "\<lambda>record. record\<lparr>status := ''active'', last_used_at := Some now\<rparr>"]
  by simp

lemma raw_keys_record_failure:
  "record_failure now index exc m = Inr m' \<Longrightarrow> map raw_key (records m') = map raw_key (records m)"
  using map_field_update [of raw_key "\<lambda>record. record\<lparr>status := ''failed'', last_error := exc_str exc,
                last_failure_at := Some now,
                failure_count := failure_count record + 1,
                disabled := True, last_used := False\<rparr>" "records m" index]
  by (simp add: record_failure_Inr)

lemma masked_keys_record_failure:
  "record_failure now index exc m = Inr m' \<Longrightarrow>
   map masked_key (records m') = map masked_key (records m)"
  using map_field_update [of masked_key "\<lambda>record. record\<lparr>status := ''failed'', last_error := exc_str exc,
                last_failure_at := Some now,
                failure_count := failure_count record + 1,
                disabled := True, last_used := False\<rparr>" "records m" index]
  by (simp add: record_failure_Inr)

lemma raw_keys_marked_failed [simp]:
  "map raw_key (records (marked_failed index m)) = map raw_key (records m)"
  unfolding marked_failed_def
  using map_field_update [of raw_key "\<lambda>record. record\<lparr>status := ''failed''\<rparr>"]
  by simp

lemma masked_keys_marked_failed [simp]:
  "map masked_key (records (marked_failed index m)) = map masked_key (records m)"
  unfolding marked_failed_def
  using map_field_update [of masked_key "\<lambda>record. record\<lparr>status := ''failed''\<rparr>"]
  by simp

lemma raw_keys_clear_previous [simp]:
  "map raw_key (clear_previous index m) = map raw_key (records m)"
  using map_field_update [of raw_key "\<lambda>record. record\<lparr>last_used := False\<rparr>" "records m"]
  by (simp add: clear_previous_def split: option.splits)

lemma masked_keys_clear_previous [simp]:
  "map masked_key (clear_previous index m) = map masked_key (records m)"
  using map_field_update [of masked_key "\<lambda>record. record\<lparr>last_used := False\<rparr>" "records m"]
  by (simp add: clear_previous_def split: option.splits)

lemma raw_keys_record_success:
  "record_success now index m = Inr m' \<Longrightarrow> map raw_key (records m') = map raw_key (records m)"
  using map_field_update [of raw_key "\<lambda>record. record\<lparr>status := ''healthy'', last_error := None,
                 last_success_at := Some now, success_count := success_count record + 1,
                last_used := True, last_used_at := Some now\<rparr>" "clear_previous index m" index]
  by (simp add: record_success_Inr)

lemma masked_keys_record_success:
  "record_success now index m = Inr m' \<Longrightarrow>
   map masked_key (records m') = map masked_key (records m)"
  using map_field_update [of masked_key "\<lambda>record. record\<lparr>status := ''healthy'', last_error := None,
                 last_success_at := Some now, success_count := success_count record + 1,
                last_used := True, last_used_at := Some now\<rparr>" "clear_previous index m" index]
  by (simp add: record_success_Inr)

lemma success_counts_mark_active [simp]:
  "map success_count (records (mark_active now index m)) = map success_count (records m)"
  unfolding mark_active_def
  using map_field_update [of success_count "\<lambda>record. record\<lparr>status := ''active'', last_used_at := Some now\<rparr>"]
  by simp

lemma success_counts_record_failure:
  "record_failure now index exc m = Inr m' \<Longrightarrow>
   map success_count (records m') = map success_count (records m)"
  using map_field_update [of success_count "\<lambda>record. record\<lparr>status := ''failed'', last_error := exc_str exc,
                last_failure_at := Some now,
                failure_count := failure_count record + 1,
                disabled := True, last_used := False\<rparr>" "records m" index]
  by (simp add: record_failure_Inr)

lemma success_count_record_success:
  "record_success now index m = Inr m' \<Longrightarrow>
   success_count (records m' ! index) = success_count (records m ! index) + 1"
  by (auto simp: record_success_Inr clear_previous_def split: option.splits)

lemma keys_apply_call:
  assumes "apply_call c m = Inr m'"
  shows "map raw_key (records m') = map raw_key (records m) \<and>
         map masked_key (records m') = map masked_key (records m)"
proof -
  have act: "map raw_key (records (snd (activate_next_index now m))) = map raw_key (records m) \<and>
      map masked_key (records (snd (activate_next_index now m))) = map masked_key (records m)"
    for now
    using activate_cases [of now m] by auto
  from apply_call_cases [OF assms] act show ?thesis
    using raw_keys_record_success masked_keys_record_success
      raw_keys_record_failure masked_keys_record_failure
      raw_keys_marked_failed masked_keys_marked_failed
    by metis
qed

lemma raw_keys_apply_call:
  "apply_call c m = Inr m' \<Longrightarrow> map raw_key (records m') = map raw_key (records m)"
  by (simp add: keys_apply_call)

lemma keys_apply_calls:
  "apply_calls cs m = Inr m' \<Longrightarrow>
   map raw_key (records m') = map raw_key (records m) \<and>
   map masked_key (records m') = map masked_key (records m)"
proof (induction cs arbitrary: m)
  case Nil
  then show ?case by simp
next
  case (Cons c cs)
  from Cons.prems obtain m1 where c: "apply_call c m = Inr m1" and r: "apply_calls cs m1 = Inr m'"
    by (auto split: sum.splits)
  from Cons.IH [OF r] keys_apply_call [OF c] show ?case by simp
qed

lemma get_statuses_masked_key:
  "i < length (records m) \<Longrightarrow>
   (get_statuses isoformat m ! i) ''maskedKey'' = Some (PyStr (masked_key (records m ! i)))"
  by (simp add: get_statuses_def nth_enumerate_eq status_entry_def)

lemma nth_map_eq:
  "map f xs = map f ys \<Longrightarrow> i < length ys \<Longrightarrow> f (xs ! i) = f (ys ! i)"
proof -
  assume eq: "map f xs = map f ys" and i: "i < length ys"
  from eq have "length xs = length ys" by (rule map_eq_imp_length_eq)
  with i have "map f xs ! i = f (xs ! i)" "map f ys ! i = f (ys ! i)" by simp_all
  with eq show ?thesis by simp
qed

lemma reachable_identity:
  assumes "init_manager keys = Inr m0" "apply_calls calls m0 = Inr m" "i < length keys"
  shows "raw_key (records m ! i) = keys ! i \<and> masked_key (records m ! i) = mask_key (keys ! i) \<and>
         (get_statuses isoformat m ! i) ''maskedKey'' = Some (PyStr (mask_key (keys ! i)))"
proof -
  from assms(1) have m0: "records m0 = map new_record keys" by (rule init_manager_records)
  with assms(3) have i0: "i < length (records m0)" by simp
  from keys_apply_calls [OF assms(2)]
  have raw: "map raw_key (records m) = map raw_key (records m0)"
    and masked: "map masked_key (records m) = map masked_key (records m0)" by simp_all
  from raw have "length (records m) = length (records m0)" by (rule map_eq_imp_length_eq)
  with i0 have len: "i < length (records m)" by simp
  have r: "raw_key (records m ! i) = raw_key (records m0 ! i)"
    using raw i0 by (rule nth_map_eq)
  have k: "masked_key (records m ! i) = masked_key (records m0 ! i)"
    using masked i0 by (rule nth_map_eq)
  have "records m0 ! i = new_record (keys ! i)" using m0 assms(3) by simp
  then have "raw_key (records m0 ! i) = keys ! i" "masked_key (records m0 ! i) = mask_key (keys ! i)"
    by (simp_all add: new_record_def)
  with r k get_statuses_masked_key [OF len, of isoformat] show ?thesis by simp
qed

lemma slice_from_end_last_chars: "slice_from_end n s = last_chars n s"
  by (simp add: slice_from_end_def last_chars_def take_rev)

lemma mask_key_spec: "mask_key key = masked_identity_spec key"
  by (simp add: mask_key_def masked_identity_spec_def slice_to_def first_chars_def
      slice_from_end_last_chars)

text \<open>
  Claim C6. The masked identity of a secret is its first 2 characters, the marker
  \<open>***\<close> and its last 2 characters when the secret has at most 10 characters, and its
  first 6 characters, the marker \<open>...\<close> and its last 4 characters otherwise. The
  record built at construction holds exactly this value, keeps it in every state
  reached by bookkeeping calls, and the status snapshot shows it. Equal secrets have
  equal masked identities, and the masked identity shows nothing of the secret but
  these boundary characters: two secrets on the same side of the length bound that
  agree on them have the same masked identity.
\<close>

theorem mask_key_derivation:
  "mask_key secret = masked_identity_spec secret \<and>
   (length secret \<le> 10 \<longrightarrow>
      mask_key secret = first_chars 2 secret @ ''***'' @ last_chars 2 secret) \<and>
   (10 < length secret \<longrightarrow>
      mask_key secret = first_chars 6 secret @ ''...'' @ last_chars 4 secret) \<and>
   (init_manager keys = Inr m0 \<and> apply_calls calls m0 = Inr m \<and> i < length keys \<longrightarrow>
      raw_key (records m ! i) = keys ! i \<and>
      masked_key (records m ! i) = masked_identity_spec (keys ! i) \<and>
      (get_statuses isoformat m ! i) ''maskedKey'' =
        Some (PyStr (masked_identity_spec (keys ! i)))) \<and>
   (\<forall>other. other = secret \<longrightarrow> mask_key other = mask_key secret) \<and>
   (\<forall>other. length secret \<le> 10 \<and> length other \<le> 10 \<and>
       first_chars 2 other = first_chars 2 secret \<and> last_chars 2 other = last_chars 2 secret
       \<longrightarrow> mask_key other = mask_key secret) \<and>
   (\<forall>other. 10 < length secret \<and> 10 < length other \<and>
       first_chars 6 other = first_chars 6 secret \<and> last_chars 4 other = last_chars 4 secret
       \<longrightarrow> mask_key other = mask_key secret)"
proof -
  have "init_manager keys = Inr m0 \<and> apply_calls calls m0 = Inr m \<and> i < length keys \<longrightarrow>
      raw_key (records m ! i) = keys ! i \<and>
      masked_key (records m ! i) = masked_identity_spec (keys ! i) \<and>
      (get_statuses isoformat m ! i) ''maskedKey'' =
        Some (PyStr (masked_identity_spec (keys ! i)))"
    using reachable_identity [of keys m0 calls m i isoformat] by (simp add: mask_key_spec)
  then show ?thesis
    by (simp add: mask_key_spec masked_identity_spec_def)
qed

theorem mask_key_derivation_witness:
  "mask_key ''secret-key'' = ''se***ey'' \<and> mask_key ''secret-key-1'' = ''secret...ey-1'' \<and>
   mask_key ''seXXXXXXey'' = mask_key ''secret-key'' \<and>
   mask_key ''secretXXey-1'' = mask_key ''secret-key-1'' \<and>
   (case init_manager [''secret-key'', ''secret-key-1''] of
      Inl e \<Rightarrow> False
    | Inr m0 \<Rightarrow>
        (case apply_calls [Activate 1, RecordSuccess 2 0, Activate 3] m0 of
           Inl e \<Rightarrow> False
         | Inr m \<Rightarrow>
             (get_statuses (\<lambda>ts. ''1970-01-01T00:00:00+00:00'') m ! 1) ''maskedKey''
               = Some (PyStr ''secret...ey-1'')))"
  using mask_key_derivation [of "''secret-key''"]
    mask_key_derivation [of "''secret-key-1''" "[''secret-key'', ''secret-key-1'']"
      "projr (init_manager [''secret-key'', ''secret-key-1''])"
      "[Activate 1, RecordSuccess 2 0, Activate 3]"
      "projr (apply_calls [Activate 1, RecordSuccess 2 0, Activate 3]
         (projr (init_manager [''secret-key'', ''secret-key-1''])))" 1
      "\<lambda>ts. ''1970-01-01T00:00:00+00:00''"]
  by (simp add: masked_identity_spec_def first_chars_def last_chars_def init_manager_def
      activate_next_index_def Let_def new_record_def record_success_def update_record_def
      mask_key_def slice_to_def slice_from_end_def get_statuses_def status_entry_def)

lemma nth_slice_to: "i < n \<Longrightarrow> slice_to n s ! i = s ! i"
  by (simp add: slice_to_def)

lemma nth_slice_from_end:
  "length s - n \<le> i \<Longrightarrow> i < length s \<Longrightarrow> slice_from_end n s ! (i - (length s - n)) = s ! i"
  by (simp add: slice_from_end_def)

lemma slice_cover:
  assumes "length s \<le> 4" "i < length s"
  shows "(i < 2 \<and> s ! i = slice_to 2 s ! i) \<or>
         (length s - 2 \<le> i \<and> s ! i = slice_from_end 2 s ! (i - (length s - 2)))"
proof (cases "i < 2")
  case True
  then show ?thesis by (simp add: nth_slice_to)
next
  case False
  with assms have "length s - 2 \<le> i" by arith
  then show ?thesis using assms by (simp add: nth_slice_from_end)
qed

lemma boundary_recover:
  assumes len: "length s \<le> 4" "length t = length s"
    and a: "slice_to 2 s = slice_to 2 t" and b: "slice_from_end 2 s = slice_from_end 2 t"
  shows "s = t"
proof (rule nth_equalityI)
  show "length s = length t" using len by simp
next
  fix i assume i: "i < length s"
  show "s ! i = t ! i"
  proof (cases "i < 2")
    case True
    then have "s ! i = slice_to 2 s ! i" "t ! i = slice_to 2 t ! i"
      by (simp_all add: nth_slice_to)
    with a show ?thesis by simp
  next
    case False
    with len have le: "length s - 2 \<le> i" by arith
    have "s ! i = slice_from_end 2 s ! (i - (length s - 2))"
      using le i by (simp add: nth_slice_from_end)
    moreover have "t ! i = slice_from_end 2 t ! (i - (length t - 2))"
      using le i len nth_slice_from_end [of t 2 i] by simp
    ultimately show ?thesis using b len by simp
  qed
qed

lemma mask_key_short_inj:
  assumes len: "length s \<le> 4" "length t = length s" and eq: "mask_key s = mask_key t"
  shows "s = t"
proof -
  from len eq have e: "slice_to 2 s @ ''***'' @ slice_from_end 2 s = slice_to 2 t @ ''***'' @ slice_from_end 2 t"
    by (simp add: mask_key_def)
  have l: "length (slice_to 2 s) = length (slice_to 2 t)" using len by (simp add: slice_to_def)
  from e l have "slice_to 2 s = slice_to 2 t" "slice_from_end 2 s = slice_from_end 2 t"
    by simp_all
  with len show ?thesis by (rule boundary_recover)
qed

text \<open>
  Claim C10. For a secret of at most 4 characters, every position of the secret lies
  in the slice of its first 2 or in the slice of its last 2 characters, and the masked
  identity is these two slices around the marker: it shows the whole secret, and among
  the secrets of the same length no other one has the same masked identity. This is
  the value the status snapshot shows for the key, in every state reached from
  construction. The secret \<open>abc\<close> is masked as \<open>ab***bc\<close>.
\<close>

theorem mask_key_short_secret_disclosed:
  assumes "length secret \<le> 4"
  shows "mask_key secret = slice_to 2 secret @ ''***'' @ slice_from_end 2 secret \<and>
         (\<forall>i<length secret.
            (i < 2 \<and> secret ! i = slice_to 2 secret ! i) \<or>
            (length secret - 2 \<le> i \<and>
             secret ! i = slice_from_end 2 secret ! (i - (length secret - 2)))) \<and>
         (\<forall>other. length other = length secret \<and> mask_key other = mask_key secret
                    \<longrightarrow> other = secret) \<and>
         (init_manager keys = Inr m0 \<and> apply_calls calls m0 = Inr m \<and> k < length keys \<and>
          keys ! k = secret \<longrightarrow>
            (get_statuses isoformat m ! k) ''maskedKey'' =
              Some (PyStr (slice_to 2 secret @ ''***'' @ slice_from_end 2 secret)))"
proof (intro conjI allI impI)
  show "mask_key secret = slice_to 2 secret @ ''***'' @ slice_from_end 2 secret"
    using assms by (simp add: mask_key_def)
next
  fix i assume "i < length secret"
  with assms show "(i < 2 \<and> secret ! i = slice_to 2 secret ! i) \<or>
            (length secret - 2 \<le> i \<and>
             secret ! i = slice_from_end 2 secret ! (i - (length secret - 2)))"
    by (rule slice_cover)
next
  fix other assume "length other = length secret \<and> mask_key other = mask_key secret"
  with assms show "other = secret" by (metis mask_key_short_inj)
next
  assume a: "init_manager keys = Inr m0 \<and> apply_calls calls m0 = Inr m \<and> k < length keys \<and>
          keys ! k = secret"
  then have "(get_statuses isoformat m ! k) ''maskedKey'' = Some (PyStr (mask_key (keys ! k)))"
    using reachable_identity [of keys m0 calls m k isoformat] by simp
  with a assms show "(get_statuses isoformat m ! k) ''maskedKey'' =
              Some (PyStr (slice_to 2 secret @ ''***'' @ slice_from_end 2 secret))"
    by (simp add: mask_key_def)
qed

theorem mask_key_short_secret_disclosed_witness:
  "length ''abc'' \<le> 4 \<and> mask_key ''abc'' = ''ab***bc'' \<and>
   ''abc'' ! 0 = ''ab***bc'' ! 0 \<and> ''abc'' ! 1 = ''ab***bc'' ! 1 \<and> ''abc'' ! 2 = ''ab***bc'' ! 6 \<and>
   (case init_manager [''abc''] of
      Inl e \<Rightarrow> False
    | Inr m0 \<Rightarrow>
        (case apply_calls [Activate 1, RecordFailure 2 0 (PyException ''RuntimeError'' True (Some ''denied''))] m0 of
           Inl e \<Rightarrow> False
         | Inr m \<Rightarrow>
             (get_statuses (\<lambda>ts. ''1970-01-01T00:00:00+00:00'') m ! 0) ''maskedKey''
               = Some (PyStr ''ab***bc'')))"
  using mask_key_short_secret_disclosed [of "''abc''" "[''abc'']"
      "projr (init_manager [''abc''])"
      "[Activate 1, RecordFailure 2 0 (PyException ''RuntimeError'' True (Some ''denied''))]"
      "projr (apply_calls [Activate 1, RecordFailure 2 0 (PyException ''RuntimeError'' True (Some ''denied''))]
         (projr (init_manager [''abc''])))" 0
      "\<lambda>ts. ''1970-01-01T00:00:00+00:00''"]
  by (simp add: slice_to_def slice_from_end_def init_manager_def mask_key_def
      activate_next_index_def Let_def new_record_def record_failure_def update_record_def
      get_statuses_def status_entry_def)

section \<open>The status snapshot and the count\<close>

lemma filter_status_entries:
  "length (filter (\<lambda>entry. entry ''disabled'' = Some (PyBool False))
            (map (\<lambda>(idx, record). status_entry isoformat idx record) (enumerate n recs)))
   = length (filter (\<lambda>record. \<not> disabled record) recs)"
  by (induction recs arbitrary: n) (simp_all add: status_entry_def)

text \<open>
  Claim C7. In every state of the manager, \<^verbatim>\<open>available_key_count()\<close> is the number of
  entries of \<^verbatim>\<open>get_statuses()\<close> whose \<^verbatim>\<open>disabled\<close> field is \<^verbatim>\<open>False\<close>.
\<close>

theorem available_key_count_statuses:
  "available_key_count m =
     int (length (filter (\<lambda>entry. entry ''disabled'' = Some (PyBool False)) (get_statuses isoformat m)))"
  unfolding available_key_count_def get_statuses_def filter_status_entries
  by (simp add: sum_list_triv)

theorem available_key_count_statuses_witness:
  "available_key_count
     \<lparr>records = [new_record ''good'', (new_record ''bad'')\<lparr>disabled := True\<rparr>],
      next_index = 0, last_used_index = None\<rparr> = 1 \<and>
   length (filter (\<lambda>entry. entry ''disabled'' = Some (PyBool False))
     (get_statuses (\<lambda>ts. ''1970-01-01T00:00:00+00:00'')
       \<lparr>records = [new_record ''good'', (new_record ''bad'')\<lparr>disabled := True\<rparr>],
        next_index = 0, last_used_index = None\<rparr>)) = 1"
  using available_key_count_statuses
    [of "\<lparr>records = [new_record ''good'', (new_record ''bad'')\<lparr>disabled := True\<rparr>],
          next_index = 0, last_used_index = None\<rparr>" "\<lambda>ts. ''1970-01-01T00:00:00+00:00''"]
  by (simp add: available_key_count_def new_record_def)

section \<open>Selection when no key is eligible\<close>

lemma scan_offsets_all_disabled:
  "\<forall>record \<in> set (records m). disabled record \<Longrightarrow> records m \<noteq> [] \<or> offsets = [] \<Longrightarrow>
   scan_offsets now m offsets = (None, m)"
  by (induction offsets) (auto simp: Let_def)

text \<open>
  Claim C9. When every record of the pool is disabled, the selection returns
  \<^verbatim>\<open>None\<close> and leaves the manager as it was: the cursor, and every record with its
  status and its timestamps.
\<close>

theorem activate_none_eligible:
  "\<forall>record \<in> set (records m). disabled record \<Longrightarrow> activate_next_index now m = (None, m)"
  unfolding activate_next_index_def by (rule scan_offsets_all_disabled) auto


theorem activate_none_eligible_witness:
  "activate_next_index 5
     \<lparr>records = [(new_record ''broken'')\<lparr>status := ''failed'', disabled := True\<rparr>],
      next_index = 0, last_used_index = None\<rparr>
   = (None,
      \<lparr>records = [(new_record ''broken'')\<lparr>status := ''failed'', disabled := True\<rparr>],
       next_index = 0, last_used_index = None\<rparr>)"
  using activate_none_eligible
    [of "\<lparr>records = [(new_record ''broken'')\<lparr>status := ''failed'', disabled := True\<rparr>],
          next_index = 0, last_used_index = None\<rparr>" 5]
  by simp
section \<open>The holder of the last-used flag\<close>

lemma holder_inv_single: "holder_inv m \<Longrightarrow> single_last_used m"
  unfolding holder_inv_def single_last_used_def by (metis option.inject)

lemma holder_inv_init: "init_manager keys = Inr m \<Longrightarrow> holder_inv m"
  by (auto simp: init_manager_def holder_inv_def new_record_def split: if_splits)

lemma holder_inv_mark_active: "holder_inv m \<Longrightarrow> holder_inv (mark_active now index m)"
  by (auto simp: holder_inv_def mark_active_def nth_update_if)

lemma holder_inv_activate: "holder_inv m \<Longrightarrow> holder_inv (snd (activate_next_index now m))"
  using activate_cases [of now m] by (auto simp: holder_inv_mark_active)

lemma holder_inv_record_failure:
  "holder_inv m \<Longrightarrow> record_failure now index exc m = Inr m' \<Longrightarrow> holder_inv m'"
  by (auto simp: record_failure_Inr holder_inv_def nth_update_if)

lemma holder_inv_record_success:
  assumes inv: "holder_inv m" and ok: "record_success now index m = Inr m'"
  shows "holder_inv m'"
proof -
  from ok have idx: "index < length (records m)" by (simp add: record_success_Inr)
  have clear: "\<not> last_used (clear_previous index m ! i)" if "i < length (records m)" "i \<noteq> index" for i
    using inv that
    by (auto simp: holder_inv_def clear_previous_def nth_update_if split: option.splits)
  show ?thesis
    unfolding holder_inv_def
  proof (intro allI impI)
    fix i assume i: "i < length (records m')" and lu: "last_used (records m' ! i)"
    from ok have "length (records m') = length (records m)" by (simp add: record_success_Inr)
    with i have i': "i < length (records m)" by simp
    have "i = index"
    proof (rule ccontr)
      assume ne: "i \<noteq> index"
      from ok have m': "records m' = (clear_previous index m)[index := (clear_previous index m ! index)
               \<lparr>status := ''healthy'', last_error := None, last_success_at := Some now,
                success_count := success_count (clear_previous index m ! index) + 1,
                last_used := True, last_used_at := Some now\<rparr>]"
        by (simp add: record_success_Inr)
      from lu ne have "last_used (clear_previous index m ! i)"
        unfolding m' by simp
      with clear [OF i' ne] show False by simp
    qed
    with ok show "last_used_index m' = Some i" by (simp add: record_success_Inr)
  qed
qed

lemma holder_inv_marked_failed: "holder_inv m \<Longrightarrow> holder_inv (marked_failed index m)"
  by (auto simp: holder_inv_def marked_failed_def nth_update_if)

lemma holder_inv_apply_call:
  assumes "holder_inv m" "apply_call c m = Inr m'"
  shows "holder_inv m'"
  using apply_call_cases [OF assms(2)] assms(1)
    holder_inv_activate holder_inv_record_success holder_inv_record_failure
    holder_inv_marked_failed
  by blast

lemma holder_inv_apply_calls: "holder_inv m \<Longrightarrow> apply_calls cs m = Inr m' \<Longrightarrow> holder_inv m'"
proof (induction cs arbitrary: m)
  case Nil
  then show ?case by simp
next
  case (Cons c cs)
  from Cons.prems(2) obtain m1 where c: "apply_call c m = Inr m1" and cs: "apply_calls cs m1 = Inr m'"
    by (auto split: sum.splits)
  from Cons.prems(1) c have "holder_inv m1" by (rule holder_inv_apply_call)
  then show ?case using cs by (rule Cons.IH)
qed

text \<open>
  Claim C5. In every state reached from construction by any sequence of selections,
  recorded successes and recorded failures, at most one record has \<^verbatim>\<open>last_used\<close>
  set, and when one has, \<^verbatim>\<open>_last_used_index\<close> is the index of that record. A call
  of \<^verbatim>\<open>run_with_key\<close> is such a sequence, so the same holds after it.
\<close>

theorem single_last_used_reachable:
  assumes "init_manager keys = Inr m0" and "apply_calls calls m0 = Inr m"
  shows "single_last_used m \<and>
         (run_with_key time fn m w = (r, m', w') \<longrightarrow>
            (\<exists>calls'. apply_calls calls' m = Inr m') \<and> single_last_used m')"
proof -
  from assms have inv: "holder_inv m"
    by (blast intro: holder_inv_apply_calls holder_inv_init)
  have "single_last_used m'" if run: "run_with_key time fn m w = (r, m', w')"
  proof -
    from run_with_key_reaches [OF run] obtain calls' where "apply_calls calls' m = Inr m'" ..
    with inv have "holder_inv m'" by (rule holder_inv_apply_calls)
    then show ?thesis by (rule holder_inv_single)
  qed
  with inv show ?thesis using run_with_key_reaches [of time fn m w r m' w']
    by (simp add: holder_inv_single)
qed

theorem single_last_used_reachable_witness:
  "(case init_manager [''alpha'', ''beta''] of
      Inl e \<Rightarrow> False
    | Inr m0 \<Rightarrow>
       (case apply_calls [Activate 1, RecordSuccess 2 0, Activate 3, RecordSuccess 4 1] m0 of
          Inl e \<Rightarrow> False
        | Inr m \<Rightarrow> single_last_used m \<and> map last_used (records m) = [False, True] \<and>
                   last_used_index m = Some 1 \<and>
                   single_last_used (fst (snd (run_with_key test_time recorder m 4)))))"
  using single_last_used_reachable [of "[''alpha'', ''beta'']"
      "\<lparr>records = map new_record [''alpha'', ''beta''], next_index = 0, last_used_index = None\<rparr>"
      "[Activate 1, RecordSuccess 2 0, Activate 3, RecordSuccess 4 1]"
      "projr (apply_calls [Activate 1, RecordSuccess 2 0, Activate 3, RecordSuccess 4 1]
          \<lparr>records = map new_record [''alpha'', ''beta''], next_index = 0, last_used_index = None\<rparr>)"
      test_time recorder 4
      "fst (run_with_key test_time recorder
         (projr (apply_calls [Activate 1, RecordSuccess 2 0, Activate 3, RecordSuccess 4 1]
          \<lparr>records = map new_record [''alpha'', ''beta''], next_index = 0, last_used_index = None\<rparr>))
         4)"
      "fst (snd (run_with_key test_time recorder
         (projr (apply_calls [Activate 1, RecordSuccess 2 0, Activate 3, RecordSuccess 4 1]
          \<lparr>records = map new_record [''alpha'', ''beta''], next_index = 0, last_used_index = None\<rparr>))
         4))"
      "snd (snd (run_with_key test_time recorder
         (projr (apply_calls [Activate 1, RecordSuccess 2 0, Activate 3, RecordSuccess 4 1]
          \<lparr>records = map new_record [''alpha'', ''beta''], next_index = 0, last_used_index = None\<rparr>))
         4))"]
  by (simp add: init_manager_def activate_next_index_def Let_def new_record_def
      record_success_def update_record_def)

section \<open>Permanent disablement\<close>

lemma stays_disabled_mark_active: "stays_disabled i m (mark_active now index m)"
  by (simp add: stays_disabled_def mark_active_def nth_update_if)

lemma stays_disabled_activate: "stays_disabled i m (snd (activate_next_index now m))"
  using activate_cases [of now m] by (auto simp: stays_disabled_mark_active) (simp add: stays_disabled_def)

lemma stays_disabled_record_failure:
  "record_failure now index exc m = Inr m' \<Longrightarrow> stays_disabled i m m'"
  by (simp add: record_failure_Inr stays_disabled_def nth_update_if)

lemma stays_disabled_record_success:
  "record_success now index m = Inr m' \<Longrightarrow> stays_disabled i m m'"
  by (simp add: record_success_Inr stays_disabled_def nth_update_if clear_previous_def
      split: option.splits)

lemma stays_disabled_marked_failed: "stays_disabled i m (marked_failed index m)"
  by (simp add: stays_disabled_def marked_failed_def nth_update_if)

lemma stays_disabled_apply_call:
  assumes "apply_call c m = Inr m'"
  shows "stays_disabled i m m'"
  using apply_call_cases [OF assms]
    stays_disabled_activate stays_disabled_record_success stays_disabled_record_failure
    stays_disabled_marked_failed
  by blast

lemma stays_disabled_trans:
  "stays_disabled i m m1 \<Longrightarrow> stays_disabled i m1 m2 \<Longrightarrow> stays_disabled i m m2"
  by (simp add: stays_disabled_def)

lemma stays_disabled_apply_calls: "apply_calls cs m = Inr m' \<Longrightarrow> stays_disabled i m m'"
proof (induction cs arbitrary: m)
  case Nil
  then show ?case by (simp add: stays_disabled_def)
next
  case (Cons c cs)
  from Cons.prems obtain m1 where c: "apply_call c m = Inr m1" and cs: "apply_calls cs m1 = Inr m'"
    by (auto split: sum.splits)
  from c have "stays_disabled i m m1" by (rule stays_disabled_apply_call)
  moreover from cs have "stays_disabled i m1 m'" by (rule Cons.IH)
  ultimately show ?case by (rule stays_disabled_trans)
qed







section \<open>Construction from the environment\<close>

lemma set_first_seen [simp]: "set (first_seen xs) = set xs"
  by (induction xs rule: first_seen.induct) auto

lemma distinct_first_seen [simp]: "distinct (first_seen xs)"
  by (induction xs rule: first_seen.induct) auto

lemma chunk_parts_eq:
  "chunk_parts chunk = filter (\<lambda>entry. entry \<noteq> []) (map strip (split_on (CHR '','') chunk))"
  by (simp add: chunk_parts_def filter_map comp_def)

lemma extend_chunks_eq:
  "extend_chunks keys chunks = keys @ concat (map chunk_parts chunks)"
  by (induction chunks arbitrary: keys) simp_all

lemma extend_chunks_entries:
  "extend_chunks [] (splitlines v) = multi_key_entries v"
proof -
  have "concat (map chunk_parts chunks)
      = filter (\<lambda>entry. entry \<noteq> []) (map strip (concat (map (split_on (CHR '','')) chunks)))"
    for chunks
    by (induction chunks) (simp_all add: chunk_parts_eq)
  then show ?thesis by (simp add: extend_chunks_eq multi_key_entries_def)
qed

lemma unique_loop_eq:
  "seen = set unique_keys \<Longrightarrow>
   unique_loop unique_keys seen keys =
     unique_keys @ first_seen (filter (\<lambda>key. key \<noteq> [] \<and> key \<notin> seen) keys)"
proof (induction keys arbitrary: unique_keys seen)
  case Nil
  then show ?case by simp
next
  case (Cons key keys)
  show ?case
  proof (cases "key \<noteq> [] \<and> key \<notin> seen")
    case True
    have "removeAll key (filter (\<lambda>k. k \<noteq> [] \<and> k \<notin> seen) keys)
        = filter (\<lambda>k. k \<noteq> [] \<and> k \<notin> insert key seen) keys"
      by (auto simp: removeAll_filter_not_eq intro: filter_cong)
    with True Cons.IH [of "insert key seen" "unique_keys @ [key]"] Cons.prems
    show ?thesis by simp
  next
    case False
    with Cons.IH [of seen unique_keys] Cons.prems show ?thesis by auto
  qed
qed

lemma unique_loop_first_seen:
  "unique_loop [] {} keys = first_seen (filter (\<lambda>key. key \<noteq> []) keys)"
  by (simp add: unique_loop_eq)

lemma filter_nonempty_entries [simp]:
  "filter (\<lambda>key. key \<noteq> []) (multi_key_entries v) = multi_key_entries v"
  "filter (\<lambda>key. key \<noteq> []) (single_key_entries env) = single_key_entries env"
  by (simp_all add: multi_key_entries_def single_key_entries_def split: option.splits)

lemma collect_keys_entries:
  "filter (\<lambda>key. key \<noteq> []) (collect_keys env) =
     (case env ''GEMINI_API_KEYS'' of
          None \<Rightarrow> single_key_entries env
        | Some v \<Rightarrow> if v = [] then single_key_entries env else multi_key_entries v)"
  by (auto simp: collect_keys_def extend_chunks_entries single_key_entries_def strip_def split: option.splits)

lemma unique_keys_configured:
  "unique_loop [] {} (collect_keys env) = configured_keys env"
  by (simp add: unique_loop_first_seen collect_keys_entries configured_keys_def)

text \<open>
  Claim C8. Construction from the environment takes the value of the multi-key
  variable, splits it into lines and each line on commas, trims every entry, discards
  the empty ones and removes duplicates, the first occurrence kept in its place; when
  that variable is absent or empty it takes the single-key variable instead, trimmed.
  It raises the configuration error exactly when the resulting list of keys is empty,
  and builds the manager over that list otherwise.
\<close>

theorem from_environment_parsing:
  "(configured_keys env = [] \<longrightarrow>
      from_environment env =
        Inl (ValueError ''No Gemini API keys found. Provide GEMINI_API_KEYS or GEMINI_API_KEY.'')) \<and>
   (configured_keys env \<noteq> [] \<longrightarrow>
      from_environment env =
        Inr \<lparr>records = map new_record (configured_keys env), next_index = 0,
             last_used_index = None\<rparr>) \<and>
   distinct (configured_keys env) \<and> [] \<notin> set (configured_keys env)"
proof -
  have "[] \<notin> set (configured_keys env)"
    by (auto simp: configured_keys_def multi_key_entries_def single_key_entries_def
        split: option.splits)
  then show ?thesis
    by (auto simp: from_environment_def unique_keys_configured init_manager_def Let_def
        configured_keys_def)
qed

theorem from_environment_parsing_witness:
  "from_environment [''GEMINI_API_KEYS'' \<mapsto> ''k1, k2,,k1\<newline> k3 ,'', ''GEMINI_API_KEY'' \<mapsto> ''zz'']
     = Inr \<lparr>records = map new_record [''k1'', ''k2'', ''k3''], next_index = 0,
            last_used_index = None\<rparr> \<and>
   from_environment [''GEMINI_API_KEYS'' \<mapsto> [], ''GEMINI_API_KEY'' \<mapsto> '' zz '']
     = Inr \<lparr>records = map new_record [''zz''], next_index = 0, last_used_index = None\<rparr> \<and>
   from_environment [''GEMINI_API_KEYS'' \<mapsto> '' , '', ''GEMINI_API_KEY'' \<mapsto> ''zz'']
     = Inl (ValueError ''No Gemini API keys found. Provide GEMINI_API_KEYS or GEMINI_API_KEY.'')"
  using from_environment_parsing
      [of "[''GEMINI_API_KEYS'' \<mapsto> ''k1, k2,,k1\<newline> k3 ,'', ''GEMINI_API_KEY'' \<mapsto> ''zz'']"]
    from_environment_parsing
      [of "[''GEMINI_API_KEYS'' \<mapsto> [], ''GEMINI_API_KEY'' \<mapsto> '' zz '']"]
    from_environment_parsing
      [of "[''GEMINI_API_KEYS'' \<mapsto> '' , '', ''GEMINI_API_KEY'' \<mapsto> ''zz'']"]
  by (simp add: configured_keys_def multi_key_entries_def single_key_entries_def splitlines_def
      strip_def is_linebreak_def is_space_def)

section \<open>The selection follows the rotation order\<close>

lemma rotation_rotate: "rotation m = rotate (next_index m) [0..<length (records m)]"
proof (rule nth_equalityI)
  show "length (rotation m) = length (rotate (next_index m) [0..<length (records m)])"
    by (simp add: rotation_def)
next
  fix k assume "k < length (rotation m)"
  then have k: "k < length (records m)" by (simp add: rotation_def)
  then have "0 < length (records m)" by arith
  then have "(next_index m + k) mod length (records m) < length (records m)"
    by (rule mod_less_divisor)
  with k show "rotation m ! k = rotate (next_index m) [0..<length (records m)] ! k"
    by (simp add: rotation_def nth_rotate)
qed

lemma distinct_rotation [simp]: "distinct (rotation m)"
  by (simp add: rotation_rotate)

lemma set_rotation [simp]: "set (rotation m) = {0..<length (records m)}"
  by (simp add: rotation_rotate)

lemma set_eligible:
  "set (eligible m) = {index. index < length (records m) \<and> \<not> disabled (records m ! index)}"
  by (auto simp: eligible_def)

lemma distinct_eligible: "distinct (eligible m)"
  by (simp add: eligible_def)

lemma scan_offsets_filter:
  assumes "records m \<noteq> [] \<or> offsets = []"
  shows "scan_offsets now m offsets =
     (case filter (\<lambda>index. \<not> disabled (records m ! index))
             (map (\<lambda>offset. (next_index m + offset) mod length (records m)) offsets) of
        [] \<Rightarrow> (None, m)
      | index # rest \<Rightarrow> (Some index, mark_active now index m))"
  using assms by (induction offsets) (auto simp: Let_def mark_active_def)

lemma activate_eligible:
  "activate_next_index now m =
     (case eligible m of [] \<Rightarrow> (None, m) | index # rest \<Rightarrow> (Some index, mark_active now index m))"
  unfolding activate_next_index_def eligible_def rotation_def
  by (rule scan_offsets_filter) auto

text \<open>rotation after selecting index i\<close>

lemma rotation_split:
  assumes "rotation m = xs @ i # ys" "length (records m') = length (records m)"
    "next_index m' = (i + 1) mod length (records m)"
  shows "rotation m' = ys @ xs @ [i]"
proof -
  let ?n = "length (records m)" and ?c = "next_index m"
  let ?l = "[0..<?n]"
  have pos: "length xs < ?n"
    using arg_cong [OF assms(1), of length] by (simp add: rotation_def)
  have "i = rotation m ! length xs" using assms(1) by simp
  also have "\<dots> = (?c + length xs) mod ?n" using pos by (simp add: rotation_def)
  finally have i: "i = (?c + length xs) mod ?n" .
  have "rotation m' = rotate ((i + 1) mod ?n) ?l" using assms(2,3) by (simp add: rotation_rotate)
  also have "\<dots> = rotate (Suc (length xs) + ?c) ?l"
    using rotate_conv_mod [of "Suc (length xs) + ?c" ?l] rotate_conv_mod [of "(i + 1) mod ?n" ?l]
    by (simp add: i mod_Suc_eq add.commute)
  also have "\<dots> = rotate (length (xs @ [i])) (rotate ?c ?l)" by (simp add: rotate_rotate)
  also have "rotate ?c ?l = (xs @ [i]) @ ys" using assms(1) by (simp add: rotation_rotate)
  also have "rotate (length (xs @ [i])) ((xs @ [i]) @ ys) = ys @ xs @ [i]"
    by (simp only: rotate_append)
  finally show ?thesis .
qed


lemma eligible_rotated:
  assumes el: "eligible m = i # rest"
    and len: "length (records m') = length (records m)"
    and nxt: "next_index m' = (i + 1) mod length (records m)"
    and same: "\<forall>j<length (records m). j \<noteq> i \<longrightarrow>
                 disabled (records m' ! j) = disabled (records m ! j)"
  shows "eligible m' = rest @ (if disabled (records m' ! i) then [] else [i])"
proof -
  let ?P = "\<lambda>index. \<not> disabled (records m ! index)"
  let ?P' = "\<lambda>index. \<not> disabled (records m' ! index)"
  from el obtain xs ys where rot: "rotation m = xs @ i # ys"
    and xs: "\<forall>x\<in>set xs. \<not> ?P x" and rest: "rest = filter ?P ys"
    unfolding eligible_def filter_eq_Cons_iff by blast
  have d: "distinct (xs @ i # ys)" using distinct_rotation [of m] rot by simp
  have bound: "set (xs @ i # ys) = {0..<length (records m)}" using set_rotation [of m] rot by simp
  have rot': "rotation m' = ys @ xs @ [i]" using rot len nxt by (rule rotation_split)
  have "filter ?P' xs = []"
  proof -
    have "\<not> ?P' x" if "x \<in> set xs" for x
    proof -
      from that d have "x \<noteq> i" by auto
      moreover from that bound have "x < length (records m)" by auto
      ultimately show ?thesis using same xs that by simp
    qed
    then show ?thesis by (simp add: filter_empty_conv)
  qed
  moreover have "filter ?P' ys = filter ?P ys"
  proof (rule filter_cong [OF refl])
    fix y assume "y \<in> set ys"
    with d have "y \<noteq> i" by auto
    moreover from \<open>y \<in> set ys\<close> bound have "y < length (records m)" by auto
    ultimately show "?P' y = ?P y" using same by simp
  qed
  ultimately show ?thesis by (simp add: eligible_def rot' rest)
qed

lemma eligible_bounds:
  "eligible m = i # rest \<Longrightarrow> i < length (records m) \<and> \<not> disabled (records m ! i)"
proof -
  assume el: "eligible m = i # rest"
  then have "i \<in> set (eligible m)" by simp
  then show ?thesis by (simp add: eligible_def)
qed

lemma eligible_mark_active:
  assumes "eligible m = i # rest"
  shows "eligible (mark_active now i m) = rest @ [i]"
proof -
  from assms have i: "i < length (records m)" "\<not> disabled (records m ! i)"
    by (simp_all add: eligible_bounds)
  have "eligible (mark_active now i m) =
      rest @ (if disabled (records (mark_active now i m) ! i) then [] else [i])"
    using assms by (rule eligible_rotated) (simp_all add: mark_active_def)
  then show ?thesis using i by (simp add: mark_active_def)
qed

lemma eligible_record_failure:
  assumes "eligible m = i # rest" "record_failure now' i exc (mark_active now i m) = Inr m2"
  shows "eligible m2 = rest"
proof -
  from assms(1) have i: "i < length (records m)" by (simp add: eligible_bounds)
  have "eligible m2 = rest @ (if disabled (records m2 ! i) then [] else [i])"
    using assms(1)
  proof (rule eligible_rotated)
    show "length (records m2) = length (records m)"
      using assms(2) by (simp add: record_failure_Inr)
    show "next_index m2 = (i + 1) mod length (records m)"
      using assms(2) by (simp add: record_failure_Inr mark_active_def)
    show "\<forall>j<length (records m). j \<noteq> i \<longrightarrow>
                 disabled (records m2 ! j) = disabled (records m ! j)"
      using assms(2) by (simp add: record_failure_Inr mark_active_def)
  qed
  moreover have "disabled (records m2 ! i)" using assms(2) i by (simp add: record_failure_Inr)
  ultimately show ?thesis by simp
qed

lemma eligible_record_success:
  assumes "eligible m = i # rest" "record_success now' i (mark_active now i m) = Inr m2"
  shows "eligible m2 = rest @ [i]"
proof -
  from assms(1) have i: "i < length (records m)" "\<not> disabled (records m ! i)"
    by (simp_all add: eligible_bounds)
  have dis: "disabled (records m2 ! j) = disabled (records m ! j)" if "j < length (records m)" for j
    using assms(2) that
    by (simp add: record_success_Inr mark_active_def nth_update_if clear_previous_def
        split: option.splits)
  have "eligible m2 = rest @ (if disabled (records m2 ! i) then [] else [i])"
    using assms(1)
  proof (rule eligible_rotated)
    show "length (records m2) = length (records m)"
      using assms(2) by (simp add: record_success_Inr)
    show "next_index m2 = (i + 1) mod length (records m)"
      using assms(2) by (simp add: record_success_Inr mark_active_def)
    show "\<forall>j<length (records m). j \<noteq> i \<longrightarrow>
                 disabled (records m2 ! j) = disabled (records m ! j)"
      using dis by simp
  qed
  then show ?thesis using dis [OF i(1)] i(2) by simp
qed


section \<open>What a run keeps\<close>

lemma keys_at_simps [simp]:
  "keys_at m [] = []"
  "keys_at m (index # indices) = raw_key (records m ! index) # keys_at m indices"
  by (simp_all add: keys_at_def)

lemma index_ok_mark_active: "index_ok m \<Longrightarrow> index_ok (mark_active now index m)"
  by (simp add: index_ok_def mark_active_def)

lemma index_ok_record_failure:
  "index_ok m \<Longrightarrow> record_failure now index exc m = Inr m' \<Longrightarrow> index_ok m'"
  by (simp add: index_ok_def record_failure_Inr)

lemma index_ok_record_success:
  "record_success now index m = Inr m' \<Longrightarrow> index_ok m'"
  by (simp add: index_ok_def record_success_Inr)

lemma index_ok_activate: "index_ok m \<Longrightarrow> index_ok (snd (activate_next_index now m))"
  using activate_cases [of now m] by (auto simp: index_ok_mark_active)

lemma index_ok_marked_failed: "index_ok m \<Longrightarrow> index_ok (marked_failed index m)"
  by (simp add: index_ok_def marked_failed_def)

lemma index_ok_apply_call:
  assumes "index_ok m" "apply_call c m = Inr m'"
  shows "index_ok m'"
  using apply_call_cases [OF assms(2)] assms(1)
    index_ok_activate index_ok_record_success index_ok_record_failure index_ok_marked_failed
  by blast

lemma reaches_frame:
  assumes "reaches m m'"
  shows "map raw_key (records m') = map raw_key (records m) \<and> (index_ok m \<longrightarrow> index_ok m') \<and>
         stays_disabled i m m'"
proof -
  from assms obtain cs where cs: "apply_calls cs m = Inr m'" unfolding reaches_def by blast
  have "map raw_key (records m') = map raw_key (records m) \<and> (index_ok m \<longrightarrow> index_ok m')"
    using cs
  proof (induction cs arbitrary: m)
    case Nil
    then show ?case by simp
  next
    case (Cons c cs)
    from Cons.prems obtain m1 where c: "apply_call c m = Inr m1" and r: "apply_calls cs m1 = Inr m'"
      by (auto split: sum.splits)
    from Cons.IH [OF r] raw_keys_apply_call [OF c] index_ok_apply_call [OF _ c]
    show ?case by auto
  qed
  with stays_disabled_apply_calls [OF cs] show ?thesis by simp
qed

lemma init_manager_index_ok: "init_manager keys = Inr m \<Longrightarrow> index_ok m"
  by (auto simp: init_manager_def index_ok_def split: if_splits)

lemma record_failure_total:
  "index < length (records m) \<Longrightarrow> exc_str exc \<noteq> None \<Longrightarrow>
   \<exists>m'. record_failure now index exc m = Inr m'"
  by (simp add: record_failure_Inr)

lemma record_success_total:
  "index < length (records m) \<Longrightarrow> index_ok m \<Longrightarrow> \<exists>m'. record_success now index m = Inr m'"
  by (simp add: record_success_Inr index_ok_def)

lemma success_recorded_record_success:
  "record_success now index m = Inr m' \<Longrightarrow> \<not> disabled (records m ! index) \<Longrightarrow>
   success_recorded index m'"
  by (auto simp: record_success_Inr success_recorded_def clear_previous_def nth_update_if
      split: option.splits)


lemma getitem_mark_active:
  "index < length (records m) \<Longrightarrow>
   getitem (records (mark_active now index m)) index =
     Inr ((records m ! index)\<lparr>status := ''active'', last_used_at := Some now\<rparr>)"
  by (simp add: getitem_def mark_active_def)

lemma run_loop_Suc_empty:
  "eligible m = [] \<Longrightarrow>
   run_loop (Suc n) time fn errors m w =
     (Inl (GeminiKeyExhaustedError exhausted_message errors), m, w)"
  by (simp add: activate_eligible)

lemma run_loop_Suc_failure:
  assumes "eligible m = i # rest"
    and "fn (raw_key (records m ! i)) (snd (time w)) = (Inl exc, w2)"
    and "is_Exception exc"
    and "record_failure (fst (time w2)) i exc (mark_active (fst (time w)) i m) = Inr m2"
  shows "run_loop (Suc n) time fn errors m w = run_loop n time fn (errors @ [exc]) m2 (snd (time w2))"
proof -
  from assms(1) have "i < length (records m)" by (simp add: eligible_bounds)
  then show ?thesis using assms
    by (simp add: activate_eligible getitem_mark_active split_beta)
qed

lemma run_loop_Suc_uncaught:
  assumes "eligible m = i # rest"
    and "fn (raw_key (records m ! i)) (snd (time w)) = (Inl exc, w2)"
    and "\<not> is_Exception exc"
  shows "run_loop (Suc n) time fn errors m w =
           (Inl (Uncaught exc), mark_active (fst (time w)) i m, w2)"
proof -
  from assms(1) have "i < length (records m)" by (simp add: eligible_bounds)
  then show ?thesis using assms
    by (simp add: activate_eligible getitem_mark_active split_beta)
qed

lemma run_loop_Suc_str_raised:
  assumes "eligible m = i # rest"
    and "fn (raw_key (records m ! i)) (snd (time w)) = (Inl exc, w2)"
    and "is_Exception exc" and "exc_str exc = None"
  shows "run_loop (Suc n) time fn errors m w =
           (Inl (StrRaised exc), marked_failed i (mark_active (fst (time w)) i m), snd (time w2))"
proof -
  from assms(1) have i: "i < length (records m)" by (simp add: eligible_bounds)
  then have "record_failure (fst (time w2)) i exc (mark_active (fst (time w)) i m) =
      Inl (StrRaised exc, marked_failed i (mark_active (fst (time w)) i m))"
    using assms(4) by (simp add: record_failure_Inl)
  with i show ?thesis using assms
    by (simp add: activate_eligible getitem_mark_active split_beta)
qed

lemma run_loop_Suc_success:
  assumes "eligible m = i # rest"
    and "fn (raw_key (records m ! i)) (snd (time w)) = (Inr v, w2)"
    and "record_success (fst (time w2)) i (mark_active (fst (time w)) i m) = Inr m2"
  shows "run_loop (Suc n) time fn errors m w = (Inr v, m2, snd (time w2))"
proof -
  from assms(1) have "i < length (records m)" by (simp add: eligible_bounds)
  then show ?thesis using assms
    by (simp add: activate_eligible getitem_mark_active split_beta)
qed

declare run_loop.simps(2) [simp del]

section \<open>One run against the call log\<close>

text \<open>
  A run over a pool whose eligible indices are, in rotation order, \<open>eligible m\<close>
  makes its attempts on these indices in this order. Every attempt before the last
  raised an exception that \<^verbatim>\<open>except Exception\<close> caught and \<^verbatim>\<open>_record_failure\<close>
  recorded, which left its key disabled. Either these are all the eligible indices, and
  the run raises the exhaustion error with these exceptions and leaves no eligible index;
  or the next attempt ends the run as \<open>stops_run\<close> says: with a value, with an exception
  that is not caught, or with the exception that \<^verbatim>\<open>str(error)\<close> raised while the
  failure was recorded.
\<close>

lemma stops_run_cong:
  "success_count (records m2 ! i) = success_count (records m ! i) \<Longrightarrow>
   stops_run out r i others m2 m' = stops_run out r i others m m'"
  by (simp add: stops_run_def split: sum.splits)

lemma run_loop_log:
  assumes log: "logs_calls calls time fn"
  shows "index_ok m \<Longrightarrow> length (eligible m) \<le> n \<Longrightarrow>
     run_loop n time fn errors m w = (r, m', w') \<Longrightarrow>
     (\<exists>errs.
        (\<forall>k<length errs. disabled (records m' ! (eligible m ! k))) \<and>
        (\<forall>exc\<in>set errs. is_Exception exc \<and> exc_str exc \<noteq> None) \<and>
        (r = Inl (GeminiKeyExhaustedError exhausted_message (errors @ errs)) \<and>
           length errs = length (eligible m) \<and> eligible m' = [] \<and>
           calls w' = calls w @ zip (keys_at m (eligible m)) (map Inl errs)
         \<or> (\<exists>out. length errs < length (eligible m) \<and>
               calls w' = calls w @ zip (keys_at m (take (length errs) (eligible m))) (map Inl errs)
                            @ [(raw_key (records m ! (eligible m ! length errs)), out)] \<and>
               stops_run out r (eligible m ! length errs)
                 (drop (Suc (length errs)) (eligible m)) m m')))"
proof (induction n arbitrary: errors m w)
  case 0
  then have "eligible m = []" by simp
  with 0 show ?case by auto
next
  case (Suc n)
  from log have fn_log: "\<And>key w. calls (snd (fn key w)) = calls w @ [(key, fst (fn key w))]"
    and time_log: "\<And>w. calls (snd (time w)) = calls w"
    by (simp_all add: logs_calls_def)
  show ?case
  proof (cases "eligible m")
    case Nil
    with Suc.prems show ?thesis by (auto simp: run_loop_Suc_empty)
  next
    case (Cons i rest)
    then have i: "i < length (records m)" "\<not> disabled (records m ! i)"
      by (simp_all add: eligible_bounds)
    let ?m1 = "mark_active (fst (time w)) i m"
    let ?key = "raw_key (records m ! i)"
    have ok1: "index_ok ?m1" using Suc.prems(1) by (rule index_ok_mark_active)
    obtain out w2 where fn: "fn ?key (snd (time w)) = (out, w2)"
      by (cases "fn ?key (snd (time w))")
    have w2: "calls w2 = calls w @ [(?key, out)]"
      using fn_log [of ?key "snd (time w)"] fn time_log [of w] by simp
    have w3: "calls (snd (time w2)) = calls w @ [(?key, out)]"
      using w2 time_log [of w2] by simp
    show ?thesis
    proof (cases out)
      case (Inl exc)
      show ?thesis
      proof (cases "is_Exception exc")
        case False
        have "run_loop (Suc n) time fn errors m w = (Inl (Uncaught exc), ?m1, w2)"
          using Cons fn [unfolded Inl] False by (rule run_loop_Suc_uncaught)
        with Suc.prems(3) have res: "r = Inl (Uncaught exc)" "m' = ?m1" "w' = w2" by simp_all
        then have "stops_run out r i rest m m'"
          using i False Inl by (simp add: stops_run_def mark_active_def)
        then show ?thesis using w2 res
          by (intro exI [of _ "[]"]) (auto simp: Cons)
      next
        case True
        show ?thesis
        proof (cases "exc_str exc")
          case None
          have "run_loop (Suc n) time fn errors m w =
              (Inl (StrRaised exc), marked_failed i ?m1, snd (time w2))"
            using Cons fn [unfolded Inl] True None by (rule run_loop_Suc_str_raised)
          with Suc.prems(3) have res: "r = Inl (StrRaised exc)" "m' = marked_failed i ?m1"
            "w' = snd (time w2)" by simp_all
          then have "stops_run out r i rest m m'"
            using i True None Inl by (simp add: stops_run_def mark_active_def marked_failed_def)
          then show ?thesis using w3 res
            by (intro exI [of _ "[]"]) (auto simp: Cons)
        next
          case (Some message)
          then have str: "exc_str exc \<noteq> None" by simp
          obtain m2 where m2: "record_failure (fst (time w2)) i exc ?m1 = Inr m2"
            using record_failure_total [of i ?m1 exc] i str by auto
          have el2: "eligible m2 = rest" using Cons m2 by (rule eligible_record_failure)
          have ok2: "index_ok m2" using ok1 m2 by (rule index_ok_record_failure)
          have keys2: "map raw_key (records m2) = map raw_key (records m)"
            using raw_keys_record_failure [OF m2] by simp
          have dis2: "disabled (records m2 ! i)" using m2 i by (simp add: record_failure_Inr)
          have counts2: "map success_count (records m2) = map success_count (records m)"
            using success_counts_record_failure [OF m2] by simp
          have len2: "length (records m2) = length (records m)"
            using m2 by (simp add: record_failure_Inr)
          have run: "run_loop n time fn (errors @ [exc]) m2 (snd (time w2)) = (r, m', w')"
            using run_loop_Suc_failure [where fn=fn and n=n and errors=errors, OF Cons _ True m2]
              fn Inl Suc.prems(3)
            by simp
          have "length (eligible m2) \<le> n" using Suc.prems(2) Cons el2 by simp
          from Suc.IH [OF ok2 this run] obtain errs where
            dis: "\<forall>k<length errs. disabled (records m' ! (rest ! k))" and
            caught: "\<forall>exc\<in>set errs. is_Exception exc \<and> exc_str exc \<noteq> None" and
            res: "r = Inl (GeminiKeyExhaustedError exhausted_message ((errors @ [exc]) @ errs)) \<and>
               length errs = length rest \<and> eligible m' = [] \<and>
               calls w' = calls (snd (time w2)) @ zip (keys_at m2 rest) (map Inl errs)
             \<or> (\<exists>out. length errs < length rest \<and>
                   calls w' = calls (snd (time w2)) @
                     zip (keys_at m2 (take (length errs) rest)) (map Inl errs) @
                     [(raw_key (records m2 ! (rest ! length errs)), out)] \<and>
                   stops_run out r (rest ! length errs) (drop (Suc (length errs)) rest) m2 m')"
            unfolding el2 by blast
          have keys_at2: "keys_at m2 xs = keys_at m xs" if "set xs \<subseteq> set rest" for xs
          proof -
            have "raw_key (records m2 ! x) = raw_key (records m ! x)" if "x \<in> set xs" for x
            proof -
              from that \<open>set xs \<subseteq> set rest\<close> Cons have "x \<in> set (eligible m)" by auto
              then have "x < length (records m)" by (simp add: eligible_def)
              then show ?thesis using keys2 len2 by (metis nth_map)
            qed
            then show ?thesis by (simp add: keys_at_def)
          qed
          have dis_i: "disabled (records m' ! i)"
          proof -
            from run have "reaches m2 m'" by (rule run_loop_reaches)
            then have "stays_disabled i m2 m'" using reaches_frame by blast
            with dis2 i len2 show ?thesis by (simp add: stays_disabled_def)
          qed
          have dis': "\<forall>k<length (exc # errs). disabled (records m' ! (eligible m ! k))"
            using dis dis_i by (simp add: Cons nth_Cons split: nat.splits)
          have caught': "\<forall>exc\<in>set (exc # errs). is_Exception exc \<and> exc_str exc \<noteq> None"
            using caught True str by simp
          from res show ?thesis
          proof
            assume a: "r = Inl (GeminiKeyExhaustedError exhausted_message ((errors @ [exc]) @ errs)) \<and>
               length errs = length rest \<and> eligible m' = [] \<and>
               calls w' = calls (snd (time w2)) @ zip (keys_at m2 rest) (map Inl errs)"
            have "calls w' = calls w @ zip (keys_at m (eligible m)) (map Inl (exc # errs))"
              using a w3 Inl keys_at2 [of rest] by (simp add: Cons)
            with a dis' caught' show ?thesis
              by (intro exI [of _ "exc # errs"]) (simp add: Cons)
          next
            assume "\<exists>out. length errs < length rest \<and>
                   calls w' = calls (snd (time w2)) @
                     zip (keys_at m2 (take (length errs) rest)) (map Inl errs) @
                     [(raw_key (records m2 ! (rest ! length errs)), out)] \<and>
                   stops_run out r (rest ! length errs) (drop (Suc (length errs)) rest) m2 m'"
            then obtain out' where a: "length errs < length rest"
              "calls w' = calls (snd (time w2)) @
                     zip (keys_at m2 (take (length errs) rest)) (map Inl errs) @
                     [(raw_key (records m2 ! (rest ! length errs)), out')]"
              "stops_run out' r (rest ! length errs) (drop (Suc (length errs)) rest) m2 m'"
              by blast
            have "rest ! length errs \<in> set (eligible m)" using a(1) by (simp add: Cons)
            then have "rest ! length errs < length (records m)" by (simp add: eligible_def)
            then have k3: "success_count (records m2 ! (rest ! length errs)) =
                success_count (records m ! (rest ! length errs))"
              using counts2 by (rule nth_map_eq [rotated])
            have stop: "stops_run out' r (rest ! length errs) (drop (Suc (length errs)) rest) m m'"
              using a(3) by (simp add: stops_run_cong [OF k3])
            have k1: "keys_at m2 (take (length errs) rest) = keys_at m (take (length errs) rest)"
              by (rule keys_at2) (rule set_take_subset)
            have k2: "raw_key (records m2 ! (rest ! length errs)) =
                raw_key (records m ! (rest ! length errs))"
              using keys_at2 [of "[rest ! length errs]"] a(1) by simp
            have "calls w' = calls w @
                zip (keys_at m (take (length (exc # errs)) (eligible m))) (map Inl (exc # errs)) @
                [(raw_key (records m ! (eligible m ! length (exc # errs))), out')]"
              using a(2) w3 Inl k1 k2 by (simp add: Cons)
            with a(1) stop dis' caught' show ?thesis
              by (intro exI [of _ "exc # errs"]) (simp add: Cons)
          qed
        qed
      qed
    next
      case (Inr v)
      obtain m2 where m2: "record_success (fst (time w2)) i ?m1 = Inr m2"
        using record_success_total [of i ?m1] i ok1 by auto
      have run: "run_loop (Suc n) time fn errors m w = (Inr v, m2, snd (time w2))"
        using run_loop_Suc_success [where fn=fn and n=n and errors=errors, OF Cons _ m2] fn Inr by simp
      have "\<not> disabled (records ?m1 ! i)" using i by (simp add: mark_active_def)
      with m2 have "success_recorded i m2" by (rule success_recorded_record_success)
      moreover have "eligible m2 = rest @ [i]" using Cons m2 by (rule eligible_record_success)
      moreover have "success_count (records m2 ! i) = success_count (records m ! i) + 1"
        using success_count_record_success [OF m2] i by (simp add: mark_active_def nth_update_if)
      moreover from run Suc.prems(3) have res: "r = Inr v" "m' = m2" "w' = snd (time w2)"
        by simp_all
      ultimately have "stops_run out r i rest m m'"
        using Inr by (simp add: stops_run_def)
      then show ?thesis using res w3
        by (intro exI [of _ "[]"]) (auto simp: Cons)
    qed
  qed
qed


lemma length_eligible_le: "length (eligible m) \<le> length (records m)"
proof -
  have "length (eligible m) \<le> length (rotation m)" unfolding eligible_def by (rule length_filter_le)
  then show ?thesis by (simp add: rotation_def)
qed

lemma zip_all_failures: "a \<in> set (zip keys (map Inl errs)) \<Longrightarrow> isl (snd a)"
  by (auto simp: set_zip)

section \<open>The run beside a log is the run itself\<close>

lemma logs_calls_record_calls: "logs_calls snd (beside_log time) (record_calls fn)"
  by (simp add: logs_calls_def beside_log_def record_calls_def split_beta)

lemma beside_log_apply:
  "fst (beside_log time wl) = fst (time (fst wl))"
  "snd (beside_log time wl) = (snd (time (fst wl)), snd wl)"
  by (simp_all add: beside_log_def split_beta)

lemma record_calls_apply:
  "fst (record_calls fn key wl) = fst (fn key (fst wl))"
  "snd (record_calls fn key wl) = (snd (fn key (fst wl)), snd wl @ [(key, fst (fn key (fst wl)))])"
  by (simp_all add: record_calls_def split_beta)

lemma run_loop_unfold:
  "run_loop (Suc n) time fn errors m w =
     (case activate_next_index (fst (time w)) m of
        (None, m0) \<Rightarrow> (Inl (GeminiKeyExhaustedError exhausted_message errors), m0, w)
      | (Some index, m1) \<Rightarrow>
          (case getitem (records m1) index of
             Inl e \<Rightarrow> (Inl e, m1, snd (time w))
           | Inr key_record \<Rightarrow>
               (case fst (fn (raw_key key_record) (snd (time w))) of
                  Inl exc \<Rightarrow>
                    if is_Exception exc then
                      (case record_failure (fst (time (snd (fn (raw_key key_record) (snd (time w))))))
                              index exc m1 of
                         Inl em \<Rightarrow>
                           (Inl (fst em), snd em,
                            snd (time (snd (fn (raw_key key_record) (snd (time w))))))
                       | Inr m2 \<Rightarrow>
                           run_loop n time fn (errors @ [exc]) m2
                             (snd (time (snd (fn (raw_key key_record) (snd (time w)))))))
                    else (Inl (Uncaught exc), m1, snd (fn (raw_key key_record) (snd (time w))))
                | Inr result \<Rightarrow>
                    (case record_success (fst (time (snd (fn (raw_key key_record) (snd (time w))))))
                            index m1 of
                       Inl em \<Rightarrow>
                         (Inl (fst em), snd em,
                          snd (time (snd (fn (raw_key key_record) (snd (time w))))))
                     | Inr m2 \<Rightarrow>
                         (Inr result, m2, snd (time (snd (fn (raw_key key_record) (snd (time w))))))))))"
  by (simp add: run_loop.simps(2) Let_def split_beta split: prod.splits sum.splits option.splits)

lemma run_loop_beside_log:
  "run_loop n (beside_log time) (record_calls fn) errors m wl = (r, m', wl') \<Longrightarrow>
   run_loop n time fn errors m (fst wl) = (r, m', fst wl')"
proof (induction n arbitrary: errors m wl)
  case 0
  then show ?case by auto
next
  case (Suc n)
  have step: "run_loop n time fn errs m2 w2 = (r, m', fst wl')"
    if "run_loop n (beside_log time) (record_calls fn) errs m2 (w2, entries) = (r, m', wl')"
    for errs m2 w2 entries
    using Suc.IH [OF that] by simp
  show ?case
    using Suc.prems
    unfolding run_loop_unfold [of n "beside_log time"] run_loop_unfold [of n time]
    by (auto simp: beside_log_apply record_calls_apply
        split: prod.splits sum.splits option.splits if_splits dest: step)
qed

lemma run_with_key_beside_log:
  "run_with_key (beside_log time) (record_calls fn) m wl = (r, m', wl') \<Longrightarrow>
   run_with_key time fn m (fst wl) = (r, m', fst wl')"
  using run_loop_beside_log [of "length (records m)" time fn "[]" m wl r m' wl']
  by (simp add: run_with_key_def)

lemmas eval_defs = run_with_key_def run_loop.simps activate_next_index_def Let_def
  new_record_def record_success_def record_failure_def update_record_def getitem_def
  test_time_def recorder_def fail_for_bad_def always_fail_def interrupted_def exit_for_bad_def
  unprintable_def beside_log_def record_calls_def
  index_ok_def rotation_def keys_at_def eligible_def success_recorded_def exhausted_message_def

lemma zip_failures: "a \<in> set (zip keys (map Inl errs)) \<Longrightarrow> \<exists>exc\<in>set errs. snd a = Inl exc"
  by (auto simp: set_zip)

text \<open>
  The outcomes of one run beside a log that starts empty: the log is the list of the
  attempts of this run.
\<close>

lemma run_with_key_outcomes:
  assumes "index_ok m"
    and "run_with_key (beside_log time) (record_calls fn) m (w, []) = (r, m', (w', attempted))"
  shows "\<exists>errs.
           (\<forall>k<length errs. disabled (records m' ! (eligible m ! k))) \<and>
           (\<forall>exc\<in>set errs. is_Exception exc \<and> exc_str exc \<noteq> None) \<and>
           (r = Inl (GeminiKeyExhaustedError exhausted_message errs) \<and>
              length errs = length (eligible m) \<and> eligible m' = [] \<and>
              attempted = zip (keys_at m (eligible m)) (map Inl errs)
            \<or> (\<exists>out. length errs < length (eligible m) \<and>
                  attempted =
                    zip (keys_at m (take (length errs) (eligible m))) (map Inl errs) @
                    [(raw_key (records m ! (eligible m ! length errs)), out)] \<and>
                  stops_run out r (eligible m ! length errs)
                    (drop (Suc (length errs)) (eligible m)) m m'))"
proof -
  from assms(2) have run: "run_loop (length (records m)) (beside_log time) (record_calls fn) [] m
      (w, []) = (r, m', (w', attempted))"
    by (simp add: run_with_key_def)
  from run_loop_log [OF logs_calls_record_calls assms(1) length_eligible_le run]
  show ?thesis by simp
qed

text \<open>
  Every state reached from construction has \<^verbatim>\<open>_last_used_index\<close> in range, the
  hypothesis \<open>index_ok\<close> of the theorems about a run.
\<close>

lemma reachable_index_ok:
  assumes "init_manager keys = Inr m0" "apply_calls calls m0 = Inr m"
  shows "index_ok m"
proof -
  from assms(2) have "reaches m0 m" unfolding reaches_def by blast
  with init_manager_index_ok [OF assms(1)] show ?thesis using reaches_frame [of m0 m 0] by simp
qed

text \<open>
  An exception of a subclass of \<^verbatim>\<open>Exception\<close> whose \<^verbatim>\<open>__str__\<close> raises is caught,
  and \<^verbatim>\<open>str(error)\<close> in \<^verbatim>\<open>_record_failure\<close> then raises out of the handler: the run
  ends with that exception, the key marked \<^verbatim>\<open>failed\<close> and still enabled. The two
  theorems on a run below are about runs in which \<^verbatim>\<open>str(error)\<close> returns.
\<close>

lemma run_with_key_str_raised:
  "fst (run_with_key test_time unprintable
          \<lparr>records = map new_record [''k''], next_index = 0, last_used_index = None\<rparr> 0)
     = Inl (StrRaised (PyException ''Unprintable'' True None)) \<and>
   status (records (fst (snd (run_with_key test_time unprintable
          \<lparr>records = map new_record [''k''], next_index = 0, last_used_index = None\<rparr> 0))) ! 0)
     = ''failed'' \<and>
   \<not> disabled (records (fst (snd (run_with_key test_time unprintable
          \<lparr>records = map new_record [''k''], next_index = 0, last_used_index = None\<rparr> 0))) ! 0)"
  by (simp add: eval_defs)

text \<open>
  Claim C2, as it holds on the code. Take a run of \<^verbatim>\<open>run_with_key\<close> beside a log, which is the same
  run, in which \<^verbatim>\<open>str(error)\<close> returns for every exception caught. The run raises
  \<^verbatim>\<open>GeminiKeyExhaustedError\<close> if and only if every call of the caller's function made
  during the run raised an exception that \<^verbatim>\<open>except Exception\<close> catches. The error
  then carries one captured exception for each key attempted, in the order of the
  attempts, and the keys attempted are all the eligible keys of the pool: none when no
  key was eligible at the start. The only other exception the run raises is one that the
  caller's function raised in the last attempt and that is not an \<^verbatim>\<open>Exception\<close>.
\<close>

theorem run_with_key_exhausted:
  assumes "index_ok m"
    and "run_with_key (beside_log time) (record_calls fn) m (w, []) = (r, m', (w', attempted))"
    and "\<forall>attempt\<in>set attempted. \<forall>exc.
           snd attempt = Inl exc \<and> is_Exception exc \<longrightarrow> exc_str exc \<noteq> None"
  shows "run_with_key time fn m w = (r, m', w') \<and>
         ((\<exists>errs. r = Inl (GeminiKeyExhaustedError exhausted_message errs)) \<longleftrightarrow>
            (\<forall>attempt\<in>set attempted. \<exists>exc. snd attempt = Inl exc \<and> is_Exception exc)) \<and>
         (\<forall>e. r = Inl e \<longrightarrow>
            ((\<exists>errs. e = GeminiKeyExhaustedError exhausted_message errs \<and>
                attempted = zip (keys_at m (eligible m)) (map Inl errs) \<and>
                length errs = length (eligible m) \<and> length errs = length attempted)
             \<or> (\<exists>exc. e = Uncaught exc \<and> \<not> is_Exception exc \<and> attempted \<noteq> [] \<and>
                   snd (last attempted) = Inl exc)))"
proof -
  have same: "run_with_key time fn m w = (r, m', w')"
    using run_with_key_beside_log [OF assms(2)] by simp
  from run_with_key_outcomes [OF assms(1,2)] obtain errs where
    caught: "\<forall>exc\<in>set errs. is_Exception exc \<and> exc_str exc \<noteq> None" and
    res: "r = Inl (GeminiKeyExhaustedError exhausted_message errs) \<and>
              length errs = length (eligible m) \<and> eligible m' = [] \<and>
              attempted = zip (keys_at m (eligible m)) (map Inl errs)
            \<or> (\<exists>out. length errs < length (eligible m) \<and>
                  attempted =
                    zip (keys_at m (take (length errs) (eligible m))) (map Inl errs) @
                    [(raw_key (records m ! (eligible m ! length errs)), out)] \<and>
                  stops_run out r (eligible m ! length errs)
                    (drop (Suc (length errs)) (eligible m)) m m')"
    by blast
  from res show ?thesis
  proof
    assume a: "r = Inl (GeminiKeyExhaustedError exhausted_message errs) \<and>
              length errs = length (eligible m) \<and> eligible m' = [] \<and>
              attempted = zip (keys_at m (eligible m)) (map Inl errs)"
    have "\<exists>exc. snd attempt = Inl exc \<and> is_Exception exc" if "attempt \<in> set attempted" for attempt
    proof -
      from that a have "attempt \<in> set (zip (keys_at m (eligible m)) (map Inl errs))" by simp
      then obtain exc where "exc \<in> set errs" "snd attempt = Inl exc"
        using zip_failures by blast
      with caught show ?thesis by blast
    qed
    then have all: "\<forall>attempt\<in>set attempted. \<exists>exc. snd attempt = Inl exc \<and> is_Exception exc"
      by blast
    have len: "length errs = length attempted" using a by (simp add: keys_at_def)
    from a have "r = Inl (GeminiKeyExhaustedError exhausted_message errs)"
      "attempted = zip (keys_at m (eligible m)) (map Inl errs)"
      "length errs = length (eligible m)" by simp_all
    with same all len show ?thesis by blast
  next
    assume "\<exists>out. length errs < length (eligible m) \<and>
                  attempted =
                    zip (keys_at m (take (length errs) (eligible m))) (map Inl errs) @
                    [(raw_key (records m ! (eligible m ! length errs)), out)] \<and>
                  stops_run out r (eligible m ! length errs)
                    (drop (Suc (length errs)) (eligible m)) m m'"
    then obtain out where
      att: "attempted =
              zip (keys_at m (take (length errs) (eligible m))) (map Inl errs) @
              [(raw_key (records m ! (eligible m ! length errs)), out)]" and
      stop: "stops_run out r (eligible m ! length errs)
               (drop (Suc (length errs)) (eligible m)) m m'"
      by blast
    from att have mem: "(raw_key (records m ! (eligible m ! length errs)), out) \<in> set attempted"
      and ne: "attempted \<noteq> []" and lst: "snd (last attempted) = out"
      by simp_all
    show ?thesis
    proof (cases out)
      case (Inl exc)
      from mem assms(3) Inl have "is_Exception exc \<longrightarrow> exc_str exc \<noteq> None" by fastforce
      with stop Inl have r: "r = Inl (Uncaught exc)" and nc: "\<not> is_Exception exc"
        by (auto simp: stops_run_def split: if_splits)
      from mem Inl nc
      have "\<not> (\<forall>attempt\<in>set attempted. \<exists>exc. snd attempt = Inl exc \<and> is_Exception exc)"
        by force
      with same r nc ne lst Inl show ?thesis by simp
    next
      case (Inr v)
      with stop have r: "r = Inr v" by (simp add: stops_run_def)
      from mem Inr
      have "\<not> (\<forall>attempt\<in>set attempted. \<exists>exc. snd attempt = Inl exc \<and> is_Exception exc)"
        by force
      with same r show ?thesis by simp
    qed
  qed
qed

theorem run_with_key_exhausted_witness:
  "index_ok \<lparr>records = map new_record [''broken''], next_index = 0, last_used_index = None\<rparr> \<and>
   fst (run_with_key test_time always_fail
          \<lparr>records = map new_record [''broken''], next_index = 0, last_used_index = None\<rparr> 0)
     = Inl (GeminiKeyExhaustedError exhausted_message
              [PyException ''RuntimeError'' True (Some ''no keys work'')]) \<and>
   fst (run_with_key test_time (\<lambda>key w. (Inl (PyException ''RuntimeError'' True (Some key)), w))
          \<lparr>records = map new_record [''k1'', ''k2''], next_index = 1, last_used_index = None\<rparr> 0)
     = (Inl (GeminiKeyExhaustedError exhausted_message
              [PyException ''RuntimeError'' True (Some ''k2''),
               PyException ''RuntimeError'' True (Some ''k1'')])
          :: error + string) \<and>
   snd (snd (snd
       (run_with_key (beside_log test_time)
          (record_calls (\<lambda>key w. (Inl (PyException ''RuntimeError'' True (Some key)), w)))
          \<lparr>records = map new_record [''k1'', ''k2''], next_index = 1, last_used_index = None\<rparr>
          (0, []))))
     = [(''k2'', Inl (PyException ''RuntimeError'' True (Some ''k2''))),
        (''k1'', (Inl (PyException ''RuntimeError'' True (Some ''k1'')) :: py_exception + string))]"
  using run_with_key_exhausted
    [of "\<lparr>records = map new_record [''k1'', ''k2''], next_index = 1, last_used_index = None\<rparr>"
        test_time
        "\<lambda>key w. (Inl (PyException ''RuntimeError'' True (Some key)) :: py_exception + string, w)" 0
        "fst (run_with_key (beside_log test_time)
          (record_calls (\<lambda>key w. (Inl (PyException ''RuntimeError'' True (Some key)) :: py_exception + string, w)))
          \<lparr>records = map new_record [''k1'', ''k2''], next_index = 1, last_used_index = None\<rparr>
          (0, []))"
        "fst (snd (run_with_key (beside_log test_time)
          (record_calls (\<lambda>key w. (Inl (PyException ''RuntimeError'' True (Some key)) :: py_exception + string, w)))
          \<lparr>records = map new_record [''k1'', ''k2''], next_index = 1, last_used_index = None\<rparr>
          (0, [])))"
        "fst (snd (snd (run_with_key (beside_log test_time)
          (record_calls (\<lambda>key w. (Inl (PyException ''RuntimeError'' True (Some key)) :: py_exception + string, w)))
          \<lparr>records = map new_record [''k1'', ''k2''], next_index = 1, last_used_index = None\<rparr>
          (0, []))))"
        "snd (snd (snd (run_with_key (beside_log test_time)
          (record_calls (\<lambda>key w. (Inl (PyException ''RuntimeError'' True (Some key)) :: py_exception + string, w)))
          \<lparr>records = map new_record [''k1'', ''k2''], next_index = 1, last_used_index = None\<rparr>
          (0, []))))"]
    run_with_key_exhausted
    [of "\<lparr>records = map new_record [''broken''], next_index = 0, last_used_index = None\<rparr>"
        test_time always_fail 0
        "fst (run_with_key (beside_log test_time) (record_calls always_fail)
          \<lparr>records = map new_record [''broken''], next_index = 0, last_used_index = None\<rparr>
          (0, []))"
        "fst (snd (run_with_key (beside_log test_time) (record_calls always_fail)
          \<lparr>records = map new_record [''broken''], next_index = 0, last_used_index = None\<rparr>
          (0, [])))"
        "fst (snd (snd (run_with_key (beside_log test_time) (record_calls always_fail)
          \<lparr>records = map new_record [''broken''], next_index = 0, last_used_index = None\<rparr>
          (0, []))))"
        "snd (snd (snd (run_with_key (beside_log test_time) (record_calls always_fail)
          \<lparr>records = map new_record [''broken''], next_index = 0, last_used_index = None\<rparr>
          (0, []))))"]
  by (simp add: eval_defs)

text \<open>
  As first stated, with exhaustion raised whenever no attempted key succeeded, the
  claim fails: on a pool of one key, a caller's function that raises
  \<^verbatim>\<open>KeyboardInterrupt\<close> makes the one attempt of the run fail, and the run raises that
  \<^verbatim>\<open>KeyboardInterrupt\<close>, not \<^verbatim>\<open>GeminiKeyExhaustedError\<close>.
\<close>

theorem run_with_key_exhausted_counterexample:
  "index_ok \<lparr>records = map new_record [''k''], next_index = 0, last_used_index = None\<rparr> \<and>
   fst (run_with_key test_time interrupted
          \<lparr>records = map new_record [''k''], next_index = 0, last_used_index = None\<rparr> 0)
     = Inl (Uncaught (PyException ''KeyboardInterrupt'' False (Some []))) \<and>
   snd (snd (snd
       (run_with_key (beside_log test_time) (record_calls interrupted)
          \<lparr>records = map new_record [''k''], next_index = 0, last_used_index = None\<rparr>
          (0, []))))
     = [(''k'', Inl (PyException ''KeyboardInterrupt'' False (Some [])))]"
  by (simp add: eval_defs)

text \<open>
  Claim C3, as it holds on the code. Take one call of \<^verbatim>\<open>run_with_key\<close>, observed beside a log that
  leaves the run as it is, in which \<^verbatim>\<open>str(error)\<close> returns for every exception
  caught. The run hands the caller's function the keys of the eligible records in
  rotation order, the disabled ones skipped. Every attempt that raises an exception that
  \<^verbatim>\<open>except Exception\<close> catches leaves its key disabled, and the captured exceptions are
  in the order of the attempts. At the first attempt that succeeds the run records the
  success on that key and returns the value; the function is not called again. At the
  first attempt that raises an exception that is not an \<^verbatim>\<open>Exception\<close> the run raises
  that exception; the function is not called again, and the key of that attempt stays
  as the selection marked it, \<^verbatim>\<open>active\<close> and not disabled.
\<close>

theorem run_with_key_failover:
  assumes "index_ok m"
    and "run_with_key (beside_log time) (record_calls fn) m (w, []) = (r, m', (w', attempted))"
    and "\<forall>attempt\<in>set attempted. \<forall>exc.
           snd attempt = Inl exc \<and> is_Exception exc \<longrightarrow> exc_str exc \<noteq> None"
  shows "run_with_key time fn m w = (r, m', w') \<and>
         (\<exists>errs.
           (\<forall>k<length errs. disabled (records m' ! (eligible m ! k))) \<and>
           (\<forall>exc\<in>set errs. is_Exception exc) \<and>
           (r = Inl (GeminiKeyExhaustedError exhausted_message errs) \<and>
              length errs = length (eligible m) \<and>
              attempted = zip (keys_at m (eligible m)) (map Inl errs)
            \<or> (\<exists>v. r = Inr v \<and> length errs < length (eligible m) \<and>
                  attempted =
                    zip (keys_at m (take (length errs) (eligible m))) (map Inl errs) @
                    [(raw_key (records m ! (eligible m ! length errs)), Inr v)] \<and>
                  success_recorded (eligible m ! length errs) m' \<and>
                  success_count (records m' ! (eligible m ! length errs)) =
                    success_count (records m ! (eligible m ! length errs)) + 1)
            \<or> (\<exists>exc. r = Inl (Uncaught exc) \<and> \<not> is_Exception exc \<and>
                  length errs < length (eligible m) \<and>
                  attempted =
                    zip (keys_at m (take (length errs) (eligible m))) (map Inl errs) @
                    [(raw_key (records m ! (eligible m ! length errs)), Inl exc)] \<and>
                  \<not> disabled (records m' ! (eligible m ! length errs)) \<and>
                  status (records m' ! (eligible m ! length errs)) = ''active'')))"
proof -
  have same: "run_with_key time fn m w = (r, m', w')"
    using run_with_key_beside_log [OF assms(2)] by simp
  from run_with_key_outcomes [OF assms(1,2)] obtain errs where
    dis: "\<forall>k<length errs. disabled (records m' ! (eligible m ! k))" and
    caught: "\<forall>exc\<in>set errs. is_Exception exc" and
    res: "r = Inl (GeminiKeyExhaustedError exhausted_message errs) \<and>
              length errs = length (eligible m) \<and> eligible m' = [] \<and>
              attempted = zip (keys_at m (eligible m)) (map Inl errs)
            \<or> (\<exists>out. length errs < length (eligible m) \<and>
                  attempted =
                    zip (keys_at m (take (length errs) (eligible m))) (map Inl errs) @
                    [(raw_key (records m ! (eligible m ! length errs)), out)] \<and>
                  stops_run out r (eligible m ! length errs)
                    (drop (Suc (length errs)) (eligible m)) m m')"
    by blast
  from res have "r = Inl (GeminiKeyExhaustedError exhausted_message errs) \<and>
              length errs = length (eligible m) \<and>
              attempted = zip (keys_at m (eligible m)) (map Inl errs)
            \<or> (\<exists>v. r = Inr v \<and> length errs < length (eligible m) \<and>
                  attempted =
                    zip (keys_at m (take (length errs) (eligible m))) (map Inl errs) @
                    [(raw_key (records m ! (eligible m ! length errs)), Inr v)] \<and>
                  success_recorded (eligible m ! length errs) m' \<and>
                  success_count (records m' ! (eligible m ! length errs)) =
                    success_count (records m ! (eligible m ! length errs)) + 1)
            \<or> (\<exists>exc. r = Inl (Uncaught exc) \<and> \<not> is_Exception exc \<and>
                  length errs < length (eligible m) \<and>
                  attempted =
                    zip (keys_at m (take (length errs) (eligible m))) (map Inl errs) @
                    [(raw_key (records m ! (eligible m ! length errs)), Inl exc)] \<and>
                  \<not> disabled (records m' ! (eligible m ! length errs)) \<and>
                  status (records m' ! (eligible m ! length errs)) = ''active'')"
  proof
    assume "r = Inl (GeminiKeyExhaustedError exhausted_message errs) \<and>
              length errs = length (eligible m) \<and> eligible m' = [] \<and>
              attempted = zip (keys_at m (eligible m)) (map Inl errs)"
    then show ?thesis by simp
  next
    assume "\<exists>out. length errs < length (eligible m) \<and>
                  attempted =
                    zip (keys_at m (take (length errs) (eligible m))) (map Inl errs) @
                    [(raw_key (records m ! (eligible m ! length errs)), out)] \<and>
                  stops_run out r (eligible m ! length errs)
                    (drop (Suc (length errs)) (eligible m)) m m'"
    then obtain out where lt: "length errs < length (eligible m)" and
      att: "attempted =
              zip (keys_at m (take (length errs) (eligible m))) (map Inl errs) @
              [(raw_key (records m ! (eligible m ! length errs)), out)]" and
      stop: "stops_run out r (eligible m ! length errs)
               (drop (Suc (length errs)) (eligible m)) m m'"
      by blast
    from att have mem: "(raw_key (records m ! (eligible m ! length errs)), out) \<in> set attempted"
      by simp
    show ?thesis
    proof (cases out)
      case (Inl exc)
      from mem assms(3) Inl have "is_Exception exc \<longrightarrow> exc_str exc \<noteq> None" by fastforce
      with stop Inl have "r = Inl (Uncaught exc)" "\<not> is_Exception exc"
        "\<not> disabled (records m' ! (eligible m ! length errs))"
        "status (records m' ! (eligible m ! length errs)) = ''active''"
        by (auto simp: stops_run_def split: if_splits)
      with lt att Inl show ?thesis by simp
    next
      case (Inr v)
      with stop have "r = Inr v" "success_recorded (eligible m ! length errs) m'"
        "success_count (records m' ! (eligible m ! length errs)) =
           success_count (records m ! (eligible m ! length errs)) + 1"
        by (simp_all add: stops_run_def)
      with lt att Inr show ?thesis by simp
    qed
  qed
  with same dis caught show ?thesis by blast
qed

theorem run_with_key_failover_witness:
  "eligible
     \<lparr>records = [(new_record ''good'')\<lparr>status := ''healthy'', last_used_at := Some 1,
                    last_success_at := Some 1, success_count := 1, last_used := True\<rparr>,
                 new_record ''bad''],
      next_index = 1, last_used_index = Some 0\<rparr> = [1, 0] \<and>
   fst (run_with_key test_time fail_for_bad
     \<lparr>records = [(new_record ''good'')\<lparr>status := ''healthy'', last_used_at := Some 1,
                    last_success_at := Some 1, success_count := 1, last_used := True\<rparr>,
                 new_record ''bad''],
      next_index = 1, last_used_index = Some 0\<rparr> 2) = Inr ''good'' \<and>
   snd (snd (snd (run_with_key (beside_log test_time) (record_calls fail_for_bad)
     \<lparr>records = [(new_record ''good'')\<lparr>status := ''healthy'', last_used_at := Some 1,
                    last_success_at := Some 1, success_count := 1, last_used := True\<rparr>,
                 new_record ''bad''],
      next_index = 1, last_used_index = Some 0\<rparr> (2, []))))
     = [(''bad'', Inl (PyException ''RuntimeError'' True (Some ''bad key disabled''))), (''good'', Inr ''good'')] \<and>
   disabled (records (fst (snd (run_with_key test_time fail_for_bad
     \<lparr>records = [(new_record ''good'')\<lparr>status := ''healthy'', last_used_at := Some 1,
                    last_success_at := Some 1, success_count := 1, last_used := True\<rparr>,
                 new_record ''bad''],
      next_index = 1, last_used_index = Some 0\<rparr> 2))) ! 1) \<and>
   success_recorded 0 (fst (snd (run_with_key test_time fail_for_bad
     \<lparr>records = [(new_record ''good'')\<lparr>status := ''healthy'', last_used_at := Some 1,
                    last_success_at := Some 1, success_count := 1, last_used := True\<rparr>,
                 new_record ''bad''],
      next_index = 1, last_used_index = Some 0\<rparr> 2))) \<and>
   success_count (records (fst (snd (run_with_key test_time fail_for_bad
     \<lparr>records = [(new_record ''good'')\<lparr>status := ''healthy'', last_used_at := Some 1,
                    last_success_at := Some 1, success_count := 1, last_used := True\<rparr>,
                 new_record ''bad''],
      next_index = 1, last_used_index = Some 0\<rparr> 2))) ! 0) = 2"
  using run_with_key_failover
    [of "\<lparr>records = [(new_record ''good'')\<lparr>status := ''healthy'', last_used_at := Some 1,
                    last_success_at := Some 1, success_count := 1, last_used := True\<rparr>,
                 new_record ''bad''],
      next_index = 1, last_used_index = Some 0\<rparr>" test_time fail_for_bad 2
     "fst (run_with_key (beside_log test_time) (record_calls fail_for_bad)
     \<lparr>records = [(new_record ''good'')\<lparr>status := ''healthy'', last_used_at := Some 1,
                    last_success_at := Some 1, success_count := 1, last_used := True\<rparr>,
                 new_record ''bad''],
      next_index = 1, last_used_index = Some 0\<rparr> (2, []))"
     "fst (snd (run_with_key (beside_log test_time) (record_calls fail_for_bad)
     \<lparr>records = [(new_record ''good'')\<lparr>status := ''healthy'', last_used_at := Some 1,
                    last_success_at := Some 1, success_count := 1, last_used := True\<rparr>,
                 new_record ''bad''],
      next_index = 1, last_used_index = Some 0\<rparr> (2, [])))"
     "fst (snd (snd (run_with_key (beside_log test_time) (record_calls fail_for_bad)
     \<lparr>records = [(new_record ''good'')\<lparr>status := ''healthy'', last_used_at := Some 1,
                    last_success_at := Some 1, success_count := 1, last_used := True\<rparr>,
                 new_record ''bad''],
      next_index = 1, last_used_index = Some 0\<rparr> (2, []))))"
     "snd (snd (snd (run_with_key (beside_log test_time) (record_calls fail_for_bad)
     \<lparr>records = [(new_record ''good'')\<lparr>status := ''healthy'', last_used_at := Some 1,
                    last_success_at := Some 1, success_count := 1, last_used := True\<rparr>,
                 new_record ''bad''],
      next_index = 1, last_used_index = Some 0\<rparr> (2, []))))"]
  by (simp add: eval_defs)

text \<open>
  As first stated, with every failing attempt disabling its key, the claim fails: on
  the pool of the keys \<^verbatim>\<open>"bad"\<close> and \<^verbatim>\<open>"good"\<close>, a caller's function that raises
  \<^verbatim>\<open>SystemExit\<close> on \<^verbatim>\<open>"bad"\<close> fails in the first attempt, the run raises that
  \<^verbatim>\<open>SystemExit\<close> without an attempt on \<^verbatim>\<open>"good"\<close>, and \<^verbatim>\<open>"bad"\<close> is left
  \<^verbatim>\<open>active\<close> and not disabled.
\<close>

theorem run_with_key_failover_counterexample:
  "eligible \<lparr>records = map new_record [''bad'', ''good''], next_index = 0,
             last_used_index = None\<rparr> = [0, 1] \<and>
   fst (run_with_key test_time exit_for_bad
          \<lparr>records = map new_record [''bad'', ''good''], next_index = 0,
           last_used_index = None\<rparr> 0)
     = Inl (Uncaught (PyException ''SystemExit'' False (Some ''1''))) \<and>
   snd (snd (snd
       (run_with_key (beside_log test_time) (record_calls exit_for_bad)
          \<lparr>records = map new_record [''bad'', ''good''], next_index = 0,
           last_used_index = None\<rparr> (0, []))))
     = [(''bad'', Inl (PyException ''SystemExit'' False (Some ''1'')))] \<and>
   \<not> disabled (records (fst (snd (run_with_key test_time exit_for_bad
          \<lparr>records = map new_record [''bad'', ''good''], next_index = 0,
           last_used_index = None\<rparr> 0))) ! 0) \<and>
   status (records (fst (snd (run_with_key test_time exit_for_bad
          \<lparr>records = map new_record [''bad'', ''good''], next_index = 0,
           last_used_index = None\<rparr> 0))) ! 0) = ''active''"
  by (simp add: eval_defs)
section \<open>Round-robin fairness\<close>

lemma activate_many_eligible:
  "eligible m = xs @ ys \<Longrightarrow> length nows = length xs \<Longrightarrow>
   fst (activate_many nows m) = map Some xs \<and> eligible (snd (activate_many nows m)) = ys @ xs"
proof (induction xs arbitrary: m nows ys)
  case Nil
  then show ?case by simp
next
  case (Cons i xs)
  from Cons.prems(2) obtain now nows' where nows: "nows = now # nows'" "length nows' = length xs"
    by (cases nows) auto
  from Cons.prems(1) have el: "eligible m = i # (xs @ ys)" by simp
  then have act: "activate_next_index now m = (Some i, mark_active now i m)"
    by (simp add: activate_eligible)
  have "eligible (mark_active now i m) = xs @ (ys @ [i])"
    using eligible_mark_active [OF el, of now] by simp
  from Cons.IH [OF this nows(2)] act nows(1) show ?case
    by (simp add: split_beta)
qed

lemma eligible_all_enabled:
  "\<forall>record\<in>set (records m). \<not> disabled record \<Longrightarrow> eligible m = rotation m"
proof -
  assume all: "\<forall>record\<in>set (records m). \<not> disabled record"
  have "\<not> disabled (records m ! index)" if "index \<in> set (rotation m)" for index
    using that all by simp
  then show ?thesis unfolding eligible_def by (simp add: filter_id_conv)
qed

lemma run_with_key_frame:
  assumes "run_with_key time fn m w = (r, m', w')"
  shows "length (records m') = length (records m)"
    and "map raw_key (records m') = map raw_key (records m)"
    and "index_ok m \<Longrightarrow> index_ok m'"
proof -
  from assms have "reaches m m'" unfolding run_with_key_def by (rule run_loop_reaches)
  from reaches_frame [OF this, of 0]
  show "length (records m') = length (records m)"
    and "map raw_key (records m') = map raw_key (records m)"
    and "index_ok m \<Longrightarrow> index_ok m'"
    by (simp_all add: stays_disabled_def)
qed

lemma keys_at_cong:
  assumes "map raw_key (records m') = map raw_key (records m)"
    and "\<forall>index\<in>set indices. index < length (records m)"
  shows "keys_at m' indices = keys_at m indices"
proof -
  have "raw_key (records m' ! index) = raw_key (records m ! index)" if "index \<in> set indices" for index
  proof -
    from that assms(2) have lt: "index < length (records m)" by simp
    moreover from assms(1) have "length (records m') = length (records m)"
      by (metis length_map)
    ultimately show ?thesis using assms(1) by (metis nth_map)
  qed
  then show ?thesis by (simp add: keys_at_def)
qed

lemma eligible_in_range: "index \<in> set (eligible m) \<Longrightarrow> index < length (records m)"
  by (simp add: eligible_def)

lemma run_with_key_calls:
  assumes "logs_calls calls time fn" "index_ok m" "run_with_key time fn m w = (r, m', w')"
  shows "\<exists>made. calls w' = calls w @ made"
proof -
  from assms(3) have run: "run_loop (length (records m)) time fn [] m w = (r, m', w')"
    by (simp add: run_with_key_def)
  from run_loop_log [OF assms(1,2) length_eligible_le run] show ?thesis by auto
qed

lemma run_many_calls:
  assumes "\<forall>fn\<in>set fns. logs_calls calls time fn"
  shows "index_ok m \<Longrightarrow> run_many time fns m w = (rs, m', w') \<Longrightarrow> \<exists>made. calls w' = calls w @ made"
  using assms
proof (induction fns arbitrary: m w rs)
  case Nil
  then show ?case by simp
next
  case (Cons fn fns)
  obtain r m1 w1 where run: "run_with_key time fn m w = (r, m1, w1)"
    by (cases "run_with_key time fn m w")
  obtain rs' where rest: "run_many time fns m1 w1 = (rs', m', w')"
    using Cons.prems(2) run by (auto split: prod.splits)
  from Cons.prems(3) have log: "logs_calls calls time fn" and logs: "\<forall>fn\<in>set fns. logs_calls calls time fn"
    by simp_all
  from run_with_key_calls [OF log Cons.prems(1) run] obtain made1 where "calls w1 = calls w @ made1" ..
  moreover from Cons.IH [OF run_with_key_frame(3) [OF run Cons.prems(1)] rest logs]
  obtain made2 where "calls w' = calls w1 @ made2" ..
  ultimately show ?case by simp
qed

lemma run_with_key_no_failure:
  assumes log: "logs_calls calls time fn" and ok: "index_ok m"
    and el: "eligible m = i # rest"
    and run: "run_with_key time fn m w = (r, m', w')"
    and made: "calls w' = calls w @ made"
    and none: "\<forall>attempt\<in>set made. \<exists>v. snd attempt = Inr v"
  shows "(\<exists>v. r = Inr v \<and> made = [(raw_key (records m ! i), Inr v)]) \<and> eligible m' = rest @ [i]"
proof -
  from run have loop: "run_loop (length (records m)) time fn [] m w = (r, m', w')"
    by (simp add: run_with_key_def)
  from run_loop_log [OF log ok length_eligible_le loop]
  obtain errs where
    res: "r = Inl (GeminiKeyExhaustedError exhausted_message errs) \<and>
       length errs = length (eligible m) \<and> eligible m' = [] \<and>
       calls w' = calls w @ zip (keys_at m (eligible m)) (map Inl errs)
     \<or> (\<exists>out. length errs < length (eligible m) \<and>
           calls w' = calls w @ zip (keys_at m (take (length errs) (eligible m))) (map Inl errs)
                        @ [(raw_key (records m ! (eligible m ! length errs)), out)] \<and>
           stops_run out r (eligible m ! length errs)
             (drop (Suc (length errs)) (eligible m)) m m')"
    by auto
  have no_errs: "errs = []" if "made = zip (keys_at m (take (length errs) (eligible m))) (map Inl errs) @ tl" for tl
  proof (cases errs)
    case Nil
    then show ?thesis .
  next
    case (Cons exc errs')
    with that el have "(raw_key (records m ! i), Inl exc) \<in> set made" by simp
    with none show ?thesis by fastforce
  qed
  from res show ?thesis
  proof
    assume a: "r = Inl (GeminiKeyExhaustedError exhausted_message errs) \<and>
       length errs = length (eligible m) \<and> eligible m' = [] \<and>
       calls w' = calls w @ zip (keys_at m (eligible m)) (map Inl errs)"
    with made have "made = zip (keys_at m (take (length errs) (eligible m))) (map Inl errs) @ []"
      by simp
    then have "errs = []" by (rule no_errs)
    with a el show ?thesis by simp
  next
    assume "\<exists>out. length errs < length (eligible m) \<and>
           calls w' = calls w @ zip (keys_at m (take (length errs) (eligible m))) (map Inl errs)
                        @ [(raw_key (records m ! (eligible m ! length errs)), out)] \<and>
           stops_run out r (eligible m ! length errs)
             (drop (Suc (length errs)) (eligible m)) m m'"
    then obtain out where a:
      "calls w' = calls w @ zip (keys_at m (take (length errs) (eligible m))) (map Inl errs)
                        @ [(raw_key (records m ! (eligible m ! length errs)), out)]"
      "stops_run out r (eligible m ! length errs) (drop (Suc (length errs)) (eligible m)) m m'"
      by blast
    from a(1) made have eq: "made = zip (keys_at m (take (length errs) (eligible m))) (map Inl errs)
                        @ [(raw_key (records m ! (eligible m ! length errs)), out)]" by simp
    then have e: "errs = []" by (rule no_errs)
    with eq el have one: "made = [(raw_key (records m ! i), out)]" by simp
    with none obtain v where v: "out = Inr v" by auto
    with a(2) e el have "r = Inr v" "eligible m' = rest @ [i]" by (simp_all add: stops_run_def)
    with one v show ?thesis by simp
  qed
qed

lemma run_many_eligible:
  assumes logs: "\<forall>fn\<in>set fns. logs_calls calls time fn"
  shows "index_ok m \<Longrightarrow> eligible m = xs @ ys \<Longrightarrow> length fns = length xs \<Longrightarrow>
     run_many time fns m w = (rs, m', w') \<Longrightarrow> calls w' = calls w @ made \<Longrightarrow>
     \<forall>attempt\<in>set made. \<exists>v. snd attempt = Inr v \<Longrightarrow>
     map fst made = keys_at m xs \<and> (\<forall>r\<in>set rs. \<exists>v. r = Inr v) \<and> length rs = length xs \<and>
     eligible m' = ys @ xs"
  using logs
proof (induction xs arbitrary: fns m w rs made ys)
  case Nil
  then show ?case by auto
next
  case (Cons i xs)
  from Cons.prems(3) obtain fn fns' where fns: "fns = fn # fns'" "length fns' = length xs"
    by (cases fns) auto
  from Cons.prems(7) fns have log: "logs_calls calls time fn"
    and logs': "\<forall>fn\<in>set fns'. logs_calls calls time fn" by simp_all
  obtain r m1 w1 where run: "run_with_key time fn m w = (r, m1, w1)"
    by (cases "run_with_key time fn m w")
  obtain rs' where rest: "run_many time fns' m1 w1 = (rs', m', w')" and rs: "rs = r # rs'"
    using Cons.prems(4) run fns by (auto split: prod.splits)
  have ok1: "index_ok m1" using run Cons.prems(1) by (rule run_with_key_frame(3))
  from run_with_key_calls [OF log Cons.prems(1) run] obtain made1 where m1: "calls w1 = calls w @ made1" ..
  from run_many_calls [OF logs' ok1 rest] obtain made2 where m2: "calls w' = calls w1 @ made2" ..
  from m1 m2 Cons.prems(5) have made: "made = made1 @ made2" by simp
  with Cons.prems(6) have none1: "\<forall>attempt\<in>set made1. \<exists>v. snd attempt = Inr v"
    and none2: "\<forall>attempt\<in>set made2. \<exists>v. snd attempt = Inr v" by auto
  from Cons.prems(2) have el: "eligible m = i # (xs @ ys)" by simp
  from run_with_key_no_failure [OF log Cons.prems(1) el run m1 none1]
  obtain v where one: "r = Inr v" "made1 = [(raw_key (records m ! i), Inr v)]"
    and el1: "eligible m1 = xs @ (ys @ [i])" by auto
  from Cons.IH [OF ok1 el1 fns(2) rest m2 none2 logs']
  have ih: "map fst made2 = keys_at m1 xs" "\<forall>r\<in>set rs'. \<exists>v. r = Inr v" "length rs' = length xs"
    "eligible m' = (ys @ [i]) @ xs" by simp_all
  have "keys_at m1 xs = keys_at m xs"
  proof (rule keys_at_cong)
    show "map raw_key (records m1) = map raw_key (records m)" using run by (rule run_with_key_frame(2))
    show "\<forall>index\<in>set xs. index < length (records m)"
      using el eligible_in_range [of _ m] by simp
  qed
  with ih one made rs show ?case by simp
qed

lemma run_many_beside_log:
  "run_many (beside_log time) (map record_calls fns) m wl = (rs, m', wl') \<Longrightarrow>
   run_many time fns m (fst wl) = (rs, m', fst wl')"
proof (induction fns arbitrary: m wl rs)
  case Nil
  then show ?case by auto
next
  case (Cons fn fns)
  obtain r m1 wl1 where run: "run_with_key (beside_log time) (record_calls fn) m wl = (r, m1, wl1)"
    by (cases "run_with_key (beside_log time) (record_calls fn) m wl")
  obtain rs' where rest: "run_many (beside_log time) (map record_calls fns) m1 wl1 = (rs', m', wl')"
    and rs: "rs = r # rs'"
    using Cons.prems run by (auto split: prod.splits)
  from run have "run_with_key time fn m (fst wl) = (r, m1, fst wl1)"
    by (rule run_with_key_beside_log)
  moreover from rest have "run_many time fns m1 (fst wl1) = (rs', m', fst wl')" by (rule Cons.IH)
  ultimately show ?case using rs by simp
qed

text \<open>
  Claim C1. In a pool of \<open>N\<close> keys none of which is disabled, \<open>N\<close> consecutive
  selections return the indices \<open>(cursor + k) mod N\<close> for \<open>k = 0, ..., N - 1\<close> in this
  order, which is every index exactly once; and \<open>N\<close> consecutive runs in which no call
  of the caller's function fails hand it the keys of these indices, one each, in the
  same order, and all return a value. The runs are observed beside a log, which
  leaves them as they are.
\<close>

theorem round_robin_fairness:
  assumes "\<forall>record\<in>set (records m). \<not> disabled record"
  shows "(length nows = length (records m) \<longrightarrow>
            fst (activate_many nows m) = map Some (rotation m)) \<and>
         (index_ok m \<and> length fns = length (records m) \<and>
          run_many (beside_log time) (map record_calls fns) m (w, []) = (rs, m', (w', made)) \<and>
          (\<forall>attempt\<in>set made. \<exists>v. snd attempt = Inr v) \<longrightarrow>
            run_many time fns m w = (rs, m', w') \<and>
            map fst made = keys_at m (rotation m) \<and> (\<forall>r\<in>set rs. \<exists>v. r = Inr v)) \<and>
         distinct (rotation m) \<and> set (rotation m) = {0..<length (records m)} \<and>
         (\<forall>k<length (records m).
            rotation m ! k = (next_index m + k) mod length (records m))"
proof -
  from assms have el: "eligible m = rotation m @ []" by (simp add: eligible_all_enabled)
  have len: "length (rotation m) = length (records m)" by (simp add: rotation_def)
  have a: "length nows = length (records m) \<longrightarrow>
            fst (activate_many nows m) = map Some (rotation m)"
    using activate_many_eligible [OF el, of nows] len by simp
  have b: "run_many time fns m w = (rs, m', w') \<and>
            map fst made = keys_at m (rotation m) \<and> (\<forall>r\<in>set rs. \<exists>v. r = Inr v)"
    if ok: "index_ok m" and n: "length fns = length (records m)"
      and run: "run_many (beside_log time) (map record_calls fns) m (w, []) = (rs, m', (w', made))"
      and none: "\<forall>attempt\<in>set made. \<exists>v. snd attempt = Inr v"
  proof -
    have logs: "\<forall>fn\<in>set (map record_calls fns). logs_calls snd (beside_log time) fn"
      by (auto simp: logs_calls_record_calls)
    have "length (map record_calls fns) = length (rotation m)" using n len by simp
    from run_many_eligible [OF logs ok el this run _ none]
    have "map fst made = keys_at m (rotation m) \<and> (\<forall>r\<in>set rs. \<exists>v. r = Inr v)" by simp
    moreover from run_many_beside_log [OF run] have "run_many time fns m w = (rs, m', w')" by simp
    ultimately show ?thesis by simp
  qed
  have c: "\<forall>k<length (records m).
            rotation m ! k = (next_index m + k) mod length (records m)"
    by (simp add: rotation_def)
  from a b c show ?thesis by simp
qed

theorem round_robin_fairness_witness:
  "fst (activate_many [1, 2, 3]
          \<lparr>records = map new_record [''alpha'', ''beta'', ''gamma''], next_index = 1,
           last_used_index = None\<rparr>) = [Some 1, Some 2, Some 0] \<and>
   fst (run_many test_time [recorder, recorder, recorder]
          \<lparr>records = map new_record [''alpha'', ''beta'', ''gamma''], next_index = 1,
           last_used_index = None\<rparr> 0)
     = [Inr ''beta'', Inr ''gamma'', Inr ''alpha''] \<and>
   map fst (snd (snd (snd
       (run_many (beside_log test_time) (map record_calls [recorder, recorder, recorder])
          \<lparr>records = map new_record [''alpha'', ''beta'', ''gamma''], next_index = 1,
           last_used_index = None\<rparr> (0, [])))))
     = [''beta'', ''gamma'', ''alpha'']"
  using round_robin_fairness
    [of "\<lparr>records = map new_record [''alpha'', ''beta'', ''gamma''], next_index = 1,
           last_used_index = None\<rparr>"
        "[1, 2, 3]" "[recorder, recorder, recorder]" test_time 0
        "fst (run_many (beside_log test_time) (map record_calls [recorder, recorder, recorder])
          \<lparr>records = map new_record [''alpha'', ''beta'', ''gamma''], next_index = 1,
           last_used_index = None\<rparr> (0, []))"
        "fst (snd (run_many (beside_log test_time) (map record_calls [recorder, recorder, recorder])
          \<lparr>records = map new_record [''alpha'', ''beta'', ''gamma''], next_index = 1,
           last_used_index = None\<rparr> (0, [])))"
        "fst (snd (snd (run_many (beside_log test_time) (map record_calls [recorder, recorder, recorder])
          \<lparr>records = map new_record [''alpha'', ''beta'', ''gamma''], next_index = 1,
           last_used_index = None\<rparr> (0, []))))"
        "snd (snd (snd (run_many (beside_log test_time) (map record_calls [recorder, recorder, recorder])
          \<lparr>records = map new_record [''alpha'', ''beta'', ''gamma''], next_index = 1,
           last_used_index = None\<rparr> (0, []))))"]
  by (simp add: eval_defs)

end
